theory Spec2Isabelle
  imports Complex_Main
begin

section \<open>Data model of scheduler.js\<close>

text \<open>
  Times, bursts, priorities and quanta are JavaScript numbers holding integers; they are
  modelled as \<open>int\<close>. Statistics are quotients of such integers: a finite one is kept as
  the exact rational \<open>Num q\<close> (the rounding of the quotient to a double is not modelled), and
  the three special values a division or an empty \<open>Math.max\<close> can produce are kept apart.
\<close>

datatype jsnum = Num rat | NaN | PosInfinity | NegInfinity

text \<open>The conditions a caller can observe. The source raises none of the last three; the
  first is what reading a field of \<open>undefined\<close> throws.\<close>

datatype error = TypeError | InvalidInput | UnsupportedAlgorithm | InternalLimitExceeded

text \<open>A process as the caller passes it: \<open>priority\<close> may be absent.\<close>

record proc_in =
  in_pid :: string
  in_arrival :: int
  in_burst :: int
  in_priority :: "int option"

text \<open>The normalised descriptor built by \<open>simulate\<close>, the runtime state every simulator
  spreads it into, and the finalised process with its two metrics.\<close>

record descriptor =
  pid :: string
  arrival :: int
  burst :: int
  priority :: int

record proc = descriptor +
  remaining :: int
  startTime :: "int option"
  completionTime :: "int option"
  enqueued :: bool

record fproc = proc +
  turnaround :: int
  waiting :: int

text \<open>The copy of a process that \<open>makeProcessState\<close> stores in a snapshot.\<close>

record pstate =
  ps_pid :: string
  ps_arrival :: int
  ps_burst :: int
  ps_remaining :: int
  ps_startTime :: "int option"
  ps_completionTime :: "int option"
  ps_priority :: int

record snapshot =
  snap_time :: int
  snap_cpu :: "string option"
  snap_ready :: "string list"
  snap_procs :: "pstate list"

record tevent =
  ev_time :: int
  ev_cpu :: "string option"
  ev_ready :: "string list"
  event :: string

record statistics =
  avgWaiting :: jsnum
  avgTurnaround :: jsnum
  makespan :: jsnum
  throughput :: jsnum
  processes :: "fproc list"

record result =
  out_trace :: "tevent list"
  historySnapshots :: "snapshot list"
  stats :: statistics

record options =
  quantum :: "int option"
  mlqFgQuantum :: "int option"
  mlqBgQuantum :: "int option"

text \<open>The local variables all five simulators share; each simulator adds its ready
  structure.\<close>

record sim =
  procs :: "proc list"
  time :: int
  history :: "snapshot list"
  trace :: "tevent list"

record qstate = sim +
  readyQueue :: "string list"

text \<open>SJF and Priority keep references to the process objects in \<open>readyList\<close>; a reference
  is the position of the object in \<open>procs\<close>, which these two simulators never reorder.\<close>

record lstate = sim +
  readyList :: "nat list"

record mstate = sim +
  fgQueue :: "string list"
  bgQueue :: "string list"

datatype 's step = Continue 's | Break 's | Throw

section \<open>JavaScript numbers and arrays\<close>

fun js_less :: "jsnum \<Rightarrow> jsnum \<Rightarrow> bool" where
  "js_less NaN _ = False"
| "js_less _ NaN = False"
| "js_less (Num a) (Num b) = (a < b)"
| "js_less NegInfinity NegInfinity = False"
| "js_less NegInfinity _ = True"
| "js_less _ NegInfinity = False"
| "js_less PosInfinity _ = False"
| "js_less _ PosInfinity = True"

definition js_max2 :: "jsnum \<Rightarrow> jsnum \<Rightarrow> jsnum" where
  "js_max2 a b = (if a = NaN \<or> b = NaN then NaN else if js_less a b then b else a)"

definition js_min2 :: "jsnum \<Rightarrow> jsnum \<Rightarrow> jsnum" where
  "js_min2 a b = (if a = NaN \<or> b = NaN then NaN else if js_less b a then b else a)"

text \<open>\<open>Math.max(...xs)\<close> and \<open>Math.min(...xs)\<close>: \<open>-Infinity\<close> and \<open>Infinity\<close> on no
  argument.\<close>

definition Math_max :: "jsnum list \<Rightarrow> jsnum" where
  "Math_max xs = fold (\<lambda>x m. js_max2 m x) xs NegInfinity"

definition Math_min :: "jsnum list \<Rightarrow> jsnum" where
  "Math_min xs = fold (\<lambda>x m. js_min2 m x) xs PosInfinity"

fun js_sub :: "jsnum \<Rightarrow> jsnum \<Rightarrow> jsnum" where
  "js_sub NaN _ = NaN"
| "js_sub _ NaN = NaN"
| "js_sub (Num a) (Num b) = Num (a - b)"
| "js_sub PosInfinity PosInfinity = NaN"
| "js_sub NegInfinity NegInfinity = NaN"
| "js_sub PosInfinity _ = PosInfinity"
| "js_sub NegInfinity _ = NegInfinity"
| "js_sub (Num a) PosInfinity = NegInfinity"
| "js_sub (Num a) NegInfinity = PosInfinity"

text \<open>Division; the zeros that occur here are positive zeros (a length, or a difference of
  integers), so the sign of zero is not tracked.\<close>

fun js_div :: "jsnum \<Rightarrow> jsnum \<Rightarrow> jsnum" where
  "js_div NaN _ = NaN"
| "js_div _ NaN = NaN"
| "js_div (Num a) (Num b) =
     (if b \<noteq> 0 then Num (a / b)
      else if a = 0 then NaN else if 0 < a then PosInfinity else NegInfinity)"
| "js_div (Num a) _ = Num 0"
| "js_div PosInfinity (Num b) = (if 0 \<le> b then PosInfinity else NegInfinity)"
| "js_div NegInfinity (Num b) = (if 0 \<le> b then NegInfinity else PosInfinity)"
| "js_div _ _ = NaN"

text \<open>\<open>Number(x)\<close> of a field that holds an integer or \<open>null\<close>: \<open>null\<close> coerces to 0.\<close>

definition Number_nullable :: "int option \<Rightarrow> jsnum" where
  "Number_nullable x = (case x of None \<Rightarrow> Num 0 | Some v \<Rightarrow> Num (of_int v))"

text \<open>\<open>x ?? d\<close>.\<close>

definition nullish :: "'a option \<Rightarrow> 'a \<Rightarrow> 'a" where
  "nullish x d = (case x of None \<Rightarrow> d | Some v \<Rightarrow> v)"

text \<open>\<open>xs.sort(cmp)\<close> is a stable sort; \<open>cmp a b\<close> is the comparator's number, and an
  element goes before the first one it does not compare greater than.\<close>

fun insert_by :: "('a \<Rightarrow> 'a \<Rightarrow> int) \<Rightarrow> 'a \<Rightarrow> 'a list \<Rightarrow> 'a list" where
  "insert_by cmp x [] = [x]"
| "insert_by cmp x (y # ys) = (if cmp x y \<le> 0 then x # y # ys else y # insert_by cmp x ys)"

definition sort_by :: "('a \<Rightarrow> 'a \<Rightarrow> int) \<Rightarrow> 'a list \<Rightarrow> 'a list" where
  "sort_by cmp xs = foldr (insert_by cmp) xs []"

text \<open>\<open>a || b\<close> on numbers: the first operand unless it is 0.\<close>

definition or_else :: "int \<Rightarrow> int \<Rightarrow> int" where
  "or_else a b = (if a \<noteq> 0 then a else b)"

text \<open>The position of the object \<open>xs.find(P)\<close> returns; \<open>None\<close> is \<open>undefined\<close>.\<close>

fun findIndex :: "('a \<Rightarrow> bool) \<Rightarrow> 'a list \<Rightarrow> nat option" where
  "findIndex P [] = None"
| "findIndex P (x # xs) = (if P x then Some 0 else map_option Suc (findIndex P xs))"

section \<open>Common helpers\<close>

definition makeProcessState :: "proc list \<Rightarrow> pstate list" where
  "makeProcessState list = map (\<lambda>p.
     \<lparr>ps_pid = pid p, ps_arrival = arrival p, ps_burst = burst p, ps_remaining = remaining p,
      ps_startTime = startTime p, ps_completionTime = completionTime p,
      ps_priority = priority p\<rparr>) list"

definition snapshotState :: "int \<Rightarrow> string option \<Rightarrow> proc list \<Rightarrow> string list \<Rightarrow> snapshot" where
  "snapshotState t c ps rdy =
     \<lparr>snap_time = t, snap_cpu = c, snap_ready = rdy, snap_procs = makeProcessState ps\<rparr>"

definition computeStats :: "fproc list \<Rightarrow> statistics" where
  "computeStats ps =
     (let total = Num (of_nat (length ps));
          avgW = js_div (Num (of_int (fold (\<lambda>x s. s + (turnaround x - burst x)) ps 0))) total;
          avgT = js_div (Num (of_int (fold (\<lambda>x s. s + turnaround x) ps 0))) total;
          mk = js_sub (Math_max (map (\<lambda>p. Number_nullable (completionTime p)) ps))
                      (Math_min (map (\<lambda>p. Num (of_int (arrival p))) ps));
          lastTime = Math_max (map (\<lambda>p. Number_nullable (completionTime p)) ps);
          thr = js_div total (Math_max [Num 1, lastTime])
      in \<lparr>avgWaiting = avgW, avgTurnaround = avgT, makespan = mk, throughput = thr,
          processes = ps\<rparr>)"

text \<open>The three statements \<open>history.push(snapshotState(time, cpu, procs, ready));
  trace.push({time, cpu, ready, event}); time++\<close>, which every simulator repeats for each
  time unit.\<close>

definition emit :: "string option \<Rightarrow> string list \<Rightarrow> string \<Rightarrow> 'a sim_scheme \<Rightarrow> 'a sim_scheme" where
  "emit c rdy ev s =
     s\<lparr>history := history s @ [snapshotState (time s) c (procs s) rdy],
       trace := trace s @ [\<lparr>ev_time = time s, ev_cpu = c, ev_ready = rdy, event = ev\<rparr>],
       time := time s + 1\<rparr>"

text \<open>The idle loop \<open>while (time < jumpTo) { ... }\<close>.\<close>

function idle_until :: "string list \<Rightarrow> int \<Rightarrow> 'a sim_scheme \<Rightarrow> 'a sim_scheme" where
  "idle_until rdy jumpTo s =
     (if time s < jumpTo then idle_until rdy jumpTo (emit None rdy ''idle'' s) else s)"
  by pat_completeness auto
termination
  by (relation "measure (\<lambda>(rdy, jumpTo, s). nat (jumpTo - time s))") (auto simp: emit_def)

declare idle_until.simps [simp del]

text \<open>Updates of the process object at position \<open>i\<close>.\<close>

definition upd_proc :: "nat \<Rightarrow> (proc \<Rightarrow> proc) \<Rightarrow> 'a sim_scheme \<Rightarrow> 'a sim_scheme" where
  "upd_proc i f s = s\<lparr>procs := (procs s)[i := f (procs s ! i)]\<rparr>"

text \<open>\<open>if (p.startTime === null) p.startTime = time\<close>.\<close>

definition mark_start :: "nat \<Rightarrow> 'a sim_scheme \<Rightarrow> 'a sim_scheme" where
  "mark_start i s =
     (if startTime (procs s ! i) = None then upd_proc i (\<lambda>p. p\<lparr>startTime := Some (time s)\<rparr>) s
      else s)"

text \<open>\<open>p.completionTime = time\<close>.\<close>

definition mark_done :: "nat \<Rightarrow> 'a sim_scheme \<Rightarrow> 'a sim_scheme" where
  "mark_done i s = upd_proc i (\<lambda>p. p\<lparr>completionTime := Some (time s)\<rparr>) s"

text \<open>One unit of execution of the process at position \<open>i\<close>:
  \<open>p.remaining -= 1; history.push(...); trace.push(...); time++; enqueueArrivals()\<close>.
  The simulator's own \<open>enqueueArrivals\<close> and its view of the ready structure are
  parameters.\<close>

definition exec_label :: "string \<Rightarrow> string" where
  "exec_label x = ''exec('' @ x @ '')''"

definition run_unit ::
  "('a sim_scheme \<Rightarrow> 'a sim_scheme) \<Rightarrow> ('a sim_scheme \<Rightarrow> string list) \<Rightarrow> nat \<Rightarrow> string \<Rightarrow>
   'a sim_scheme \<Rightarrow> 'a sim_scheme" where
  "run_unit enq rdy i x s =
     (let s1 = upd_proc i (\<lambda>p. p\<lparr>remaining := remaining p - 1\<rparr>) s
      in enq (emit (Some x) (rdy s1) (exec_label x) s1))"

text \<open>\<open>for (let t = 0; t < run; t++) { ... }\<close>.\<close>

primrec run_for ::
  "('a sim_scheme \<Rightarrow> 'a sim_scheme) \<Rightarrow> ('a sim_scheme \<Rightarrow> string list) \<Rightarrow> nat \<Rightarrow> string \<Rightarrow>
   nat \<Rightarrow> 'a sim_scheme \<Rightarrow> 'a sim_scheme" where
  "run_for enq rdy i x 0 s = s"
| "run_for enq rdy i x (Suc n) s = run_for enq rdy i x n (run_unit enq rdy i x s)"

text \<open>The test of \<open>enqueueArrivals\<close>.\<close>

definition due :: "int \<Rightarrow> proc \<Rightarrow> bool" where
  "due t p \<longleftrightarrow> \<not> enqueued p \<and> arrival p \<le> t \<and> 0 < remaining p"

definition admit :: "int \<Rightarrow> proc list \<Rightarrow> proc list" where
  "admit t ps = map (\<lambda>p. if due t p then p\<lparr>enqueued := True\<rparr> else p) ps"

text \<open>The metrics loop at the end of every simulator.\<close>

definition finalize :: "int \<Rightarrow> proc \<Rightarrow> fproc" where
  "finalize t p =
     (let c = (case completionTime p of None \<Rightarrow> t | Some c \<Rightarrow> c);
          ta = c - arrival p
      in \<lparr>pid = pid p, arrival = arrival p, burst = burst p, priority = priority p,
          remaining = remaining p,
          startTime = Some (case startTime p of None \<Rightarrow> arrival p | Some b \<Rightarrow> b),
          completionTime = Some c, enqueued = enqueued p,
          turnaround = ta, waiting = ta - burst p\<rparr>)"

definition finish :: "'a sim_scheme \<Rightarrow> result" where
  "finish s =
     \<lparr>out_trace = trace s, historySnapshots = history s,
      stats = computeStats (map (finalize (time s)) (procs s))\<rparr>"

text \<open>\<open>processes.map(p => ({...p, remaining: p.burst, startTime: null, completionTime: null,
  enqueued: false}))\<close>.\<close>

definition spawn :: "descriptor \<Rightarrow> proc" where
  "spawn p = \<lparr>pid = pid p, arrival = arrival p, burst = burst p, priority = priority p,
      remaining = burst p, startTime = None, completionTime = None, enqueued = False\<rparr>"

text \<open>The skeleton of the main loop, the same in the five simulators:
  \<open>while (pending && iter < maxIter) { iter++; body }\<close>. The body ends the loop with
  \<open>break\<close>, goes on, or throws.\<close>

definition maxIter :: nat where
  "maxIter = 200000"

function while_iter ::
  "('s \<Rightarrow> bool) \<Rightarrow> ('s \<Rightarrow> 's step) \<Rightarrow> nat \<Rightarrow> 's \<Rightarrow> (nat \<times> 's) option" where
  "while_iter pending body iter s =
     (if pending s \<and> iter < maxIter then
        (case body s of
           Continue s' \<Rightarrow> while_iter pending body (iter + 1) s'
         | Break s' \<Rightarrow> Some (iter + 1, s')
         | Throw \<Rightarrow> None)
      else Some (iter, s))"
  by pat_completeness auto
termination
  by (relation "measure (\<lambda>(pending, body, iter, s). maxIter - iter)") auto

declare while_iter.simps [simp del]

definition outcome :: "(nat \<times> 'a sim_scheme) option \<Rightarrow> error + result" where
  "outcome r = (case r of None \<Rightarrow> Inl TypeError | Some (iter, s) \<Rightarrow> Inr (finish s))"

section \<open>Round Robin\<close>

definition enqueueArrivals :: "qstate \<Rightarrow> qstate" where
  "enqueueArrivals s =
     s\<lparr>readyQueue := readyQueue s @ map pid (filter (due (time s)) (procs s)),
       procs := admit (time s) (procs s)\<rparr>"

definition q_init :: "descriptor list \<Rightarrow> qstate" where
  "q_init ds = enqueueArrivals
     \<lparr>procs = sort_by (\<lambda>a b. arrival a - arrival b) (map spawn ds), time = 0,
      history = [], trace = [], readyQueue = []\<rparr>"

definition q_pending :: "qstate \<Rightarrow> bool" where
  "q_pending s \<longleftrightarrow> (\<exists>p \<in> set (procs s). 0 < remaining p) \<or> readyQueue s \<noteq> []"

definition q_idle :: "qstate \<Rightarrow> qstate step" where
  "q_idle s =
     (case find (\<lambda>p. \<not> enqueued p \<and> 0 < remaining p) (procs s) of
        None \<Rightarrow> Break s
      | Some next \<Rightarrow>
          Continue (enqueueArrivals (idle_until (readyQueue s) (arrival next) s)))"

definition rr_turn :: "int \<Rightarrow> string \<Rightarrow> nat \<Rightarrow> qstate \<Rightarrow> qstate" where
  "rr_turn q x i s =
     (let s1 = mark_start i s;
          run = min q (remaining (procs s1 ! i));
          s2 = run_for enqueueArrivals readyQueue i x (nat run) s1
      in if remaining (procs s2 ! i) = 0 then mark_done i s2
         else s2\<lparr>readyQueue := readyQueue s2 @ [x]\<rparr>)"

definition rr_body :: "int \<Rightarrow> qstate \<Rightarrow> qstate step" where
  "rr_body q s0 =
     (let s = enqueueArrivals s0
      in case readyQueue s of
           [] \<Rightarrow> q_idle s
         | x # rest \<Rightarrow>
             (case findIndex (\<lambda>p. pid p = x) (procs s) of
                None \<Rightarrow> Throw
              | Some i \<Rightarrow> Continue (rr_turn q x i (s\<lparr>readyQueue := rest\<rparr>))))"

definition simulateRR :: "descriptor list \<Rightarrow> int \<Rightarrow> error + result" where
  "simulateRR ds q = outcome (while_iter q_pending (rr_body q) 0 (q_init ds))"

section \<open>FCFS\<close>

text \<open>\<open>while (p.remaining > 0) { ... }\<close>. The object \<open>p\<close> is the one at position \<open>i\<close>; the
  bound on \<open>i\<close> says that the reference is to an object of \<open>procs\<close>, which holds for every
  reference the simulators obtain.\<close>

function fcfs_run :: "nat \<Rightarrow> string \<Rightarrow> qstate \<Rightarrow> qstate" where
  "fcfs_run i x s =
     (if i < length (procs s) \<and> 0 < remaining (procs s ! i)
      then fcfs_run i x (run_unit enqueueArrivals readyQueue i x s) else s)"
  by pat_completeness auto
termination
  by (relation "measure (\<lambda>(i, x, s). nat (remaining (procs s ! i)))")
     (auto simp: run_unit_def enqueueArrivals_def admit_def emit_def upd_proc_def Let_def)

declare fcfs_run.simps [simp del]

definition fcfs_turn :: "string \<Rightarrow> nat \<Rightarrow> qstate \<Rightarrow> qstate" where
  "fcfs_turn x i s = mark_done i (fcfs_run i x (mark_start i s))"

definition fcfs_body :: "qstate \<Rightarrow> qstate step" where
  "fcfs_body s0 =
     (let s = enqueueArrivals s0
      in case readyQueue s of
           [] \<Rightarrow> q_idle s
         | x # rest \<Rightarrow>
             (case findIndex (\<lambda>p. pid p = x) (procs s) of
                None \<Rightarrow> Throw
              | Some i \<Rightarrow> Continue (fcfs_turn x i (s\<lparr>readyQueue := rest\<rparr>))))"

definition simulateFCFS :: "descriptor list \<Rightarrow> error + result" where
  "simulateFCFS ds = outcome (while_iter q_pending fcfs_body 0 (q_init ds))"

section \<open>SJF and Priority\<close>

definition enqueueArrivalsL :: "lstate \<Rightarrow> lstate" where
  "enqueueArrivalsL s =
     s\<lparr>readyList := readyList s @ filter (\<lambda>i. due (time s) (procs s ! i)) [0..<length (procs s)],
       procs := admit (time s) (procs s)\<rparr>"

definition l_init :: "descriptor list \<Rightarrow> lstate" where
  "l_init ds = enqueueArrivalsL
     \<lparr>procs = map spawn ds, time = 0, history = [], trace = [], readyList = []\<rparr>"

definition l_pending :: "lstate \<Rightarrow> bool" where
  "l_pending s \<longleftrightarrow> (\<exists>p \<in> set (procs s). 0 < remaining p) \<or> readyList s \<noteq> []"

definition l_idle :: "lstate \<Rightarrow> lstate step" where
  "l_idle s =
     (case find (\<lambda>p. \<not> enqueued p \<and> 0 < remaining p) (procs s) of
        None \<Rightarrow> Break s
      | Some next \<Rightarrow> Continue (enqueueArrivalsL (idle_until [] (arrival next) s)))"

text \<open>\<open>readyList.map(r => r.pid)\<close>.\<close>

definition ready_pids :: "lstate \<Rightarrow> string list" where
  "ready_pids s = map (\<lambda>i. pid (procs s ! i)) (readyList s)"

function l_run :: "nat \<Rightarrow> string \<Rightarrow> lstate \<Rightarrow> lstate" where
  "l_run i x s =
     (if i < length (procs s) \<and> 0 < remaining (procs s ! i)
      then l_run i x (run_unit enqueueArrivalsL ready_pids i x s) else s)"
  by pat_completeness auto
termination
  by (relation "measure (\<lambda>(i, x, s). nat (remaining (procs s ! i)))")
     (auto simp: run_unit_def enqueueArrivalsL_def admit_def emit_def upd_proc_def Let_def)

declare l_run.simps [simp del]

definition l_turn :: "nat \<Rightarrow> lstate \<Rightarrow> lstate" where
  "l_turn i s = mark_done i (l_run i (pid (procs s ! i)) (mark_start i s))"

definition l_body :: "(proc \<Rightarrow> proc \<Rightarrow> int) \<Rightarrow> lstate \<Rightarrow> lstate step" where
  "l_body cmp s0 =
     (let s = enqueueArrivalsL s0
      in if readyList s = [] then l_idle s
         else (case sort_by (\<lambda>a b. cmp (procs s ! a) (procs s ! b)) (readyList s) of
                 [] \<Rightarrow> Throw
               | i # rest \<Rightarrow> Continue (l_turn i (s\<lparr>readyList := rest\<rparr>))))"

text \<open>The two comparators: \<open>a.remaining - b.remaining || a.arrival - b.arrival\<close> and
  \<open>a.priority - b.priority || a.arrival - b.arrival || a.burst - b.burst\<close>.\<close>

definition sjf_cmp :: "proc \<Rightarrow> proc \<Rightarrow> int" where
  "sjf_cmp a b = or_else (remaining a - remaining b) (arrival a - arrival b)"

definition priority_cmp :: "proc \<Rightarrow> proc \<Rightarrow> int" where
  "priority_cmp a b =
     or_else (or_else (priority a - priority b) (arrival a - arrival b)) (burst a - burst b)"

definition simulateSJF :: "descriptor list \<Rightarrow> error + result" where
  "simulateSJF ds = outcome (while_iter l_pending (l_body sjf_cmp) 0 (l_init ds))"

definition simulatePriority :: "descriptor list \<Rightarrow> error + result" where
  "simulatePriority ds = outcome (while_iter l_pending (l_body priority_cmp) 0 (l_init ds))"

section \<open>Multilevel Queue\<close>

definition enqueueArrivalsM :: "mstate \<Rightarrow> mstate" where
  "enqueueArrivalsM s =
     s\<lparr>fgQueue := fgQueue s @ map pid (filter (\<lambda>p. due (time s) p \<and> priority p = 0) (procs s)),
       bgQueue := bgQueue s @ map pid (filter (\<lambda>p. due (time s) p \<and> priority p \<noteq> 0) (procs s)),
       procs := admit (time s) (procs s)\<rparr>"

definition m_init :: "descriptor list \<Rightarrow> mstate" where
  "m_init ds = enqueueArrivalsM
     \<lparr>procs = sort_by (\<lambda>a b. arrival a - arrival b) (map spawn ds), time = 0,
      history = [], trace = [], fgQueue = [], bgQueue = []\<rparr>"

definition m_pending :: "mstate \<Rightarrow> bool" where
  "m_pending s \<longleftrightarrow>
     (\<exists>p \<in> set (procs s). 0 < remaining p) \<or> fgQueue s \<noteq> [] \<or> bgQueue s \<noteq> []"

definition m_idle :: "mstate \<Rightarrow> mstate step" where
  "m_idle s =
     (case find (\<lambda>p. \<not> enqueued p \<and> 0 < remaining p) (procs s) of
        None \<Rightarrow> Break s
      | Some next \<Rightarrow> Continue (enqueueArrivalsM (idle_until [] (arrival next) s)))"

text \<open>\<open>[...fgQueue, ...bgQueue]\<close>.\<close>

definition m_ready :: "mstate \<Rightarrow> string list" where
  "m_ready s = fgQueue s @ bgQueue s"

function mlq_run :: "nat \<Rightarrow> string \<Rightarrow> mstate \<Rightarrow> mstate" where
  "mlq_run i x s =
     (if i < length (procs s) \<and> 0 < remaining (procs s ! i)
      then mlq_run i x (run_unit enqueueArrivalsM m_ready i x s) else s)"
  by pat_completeness auto
termination
  by (relation "measure (\<lambda>(i, x, s). nat (remaining (procs s ! i)))")
     (auto simp: run_unit_def enqueueArrivalsM_def admit_def emit_def upd_proc_def Let_def)

declare mlq_run.simps [simp del]

definition mlq_fg_turn :: "int \<Rightarrow> string \<Rightarrow> nat \<Rightarrow> mstate \<Rightarrow> mstate" where
  "mlq_fg_turn fgQuantum x i s =
     (let s1 = mark_start i s;
          run = min fgQuantum (remaining (procs s1 ! i));
          s2 = run_for enqueueArrivalsM m_ready i x (nat run) s1
      in if remaining (procs s2 ! i) = 0 then mark_done i s2
         else s2\<lparr>fgQueue := fgQueue s2 @ [x]\<rparr>)"

definition mlq_bg_turn :: "int option \<Rightarrow> string \<Rightarrow> nat \<Rightarrow> mstate \<Rightarrow> mstate" where
  "mlq_bg_turn bgQuantum x i s =
     (let s1 = mark_start i s
      in case bgQuantum of
           None \<Rightarrow> mark_done i (mlq_run i x s1)
         | Some b \<Rightarrow>
             (let run = min b (remaining (procs s1 ! i));
                  s2 = run_for enqueueArrivalsM m_ready i x (nat run) s1
              in if remaining (procs s2 ! i) = 0 then mark_done i s2
                 else s2\<lparr>bgQueue := bgQueue s2 @ [x]\<rparr>))"

definition mlq_body :: "int \<Rightarrow> int option \<Rightarrow> mstate \<Rightarrow> mstate step" where
  "mlq_body fgQuantum bgQuantum s0 =
     (let s = enqueueArrivalsM s0
      in if fgQueue s = [] \<and> bgQueue s = [] then m_idle s
         else (case fgQueue s of
                 x # rest \<Rightarrow>
                   (case findIndex (\<lambda>p. pid p = x) (procs s) of
                      None \<Rightarrow> Throw
                    | Some i \<Rightarrow> Continue (mlq_fg_turn fgQuantum x i (s\<lparr>fgQueue := rest\<rparr>)))
               | [] \<Rightarrow>
                   (case bgQueue s of
                      [] \<Rightarrow> Throw
                    | x # rest \<Rightarrow>
                        (case findIndex (\<lambda>p. pid p = x) (procs s) of
                           None \<Rightarrow> Throw
                         | Some i \<Rightarrow>
                             Continue (mlq_bg_turn bgQuantum x i (s\<lparr>bgQueue := rest\<rparr>))))))"

definition simulateMLQ :: "descriptor list \<Rightarrow> int \<Rightarrow> int option \<Rightarrow> error + result" where
  "simulateMLQ ds fgQuantum bgQuantum =
     outcome (while_iter m_pending (mlq_body fgQuantum bgQuantum) 0 (m_init ds))"

section \<open>The entry point\<close>

definition normalize :: "proc_in \<Rightarrow> descriptor" where
  "normalize p =
     \<lparr>pid = in_pid p, arrival = in_arrival p, burst = in_burst p,
      priority = (case in_priority p of Some v \<Rightarrow> v | None \<Rightarrow> 0)\<rparr>"

definition simulate :: "string \<Rightarrow> proc_in list \<Rightarrow> options \<Rightarrow> error + result" where
  "simulate algorithm ps opts =
     (let procsIn = map normalize ps
      in if algorithm = ''RR'' then simulateRR procsIn (nullish (quantum opts) 4)
         else if algorithm = ''FCFS'' then simulateFCFS procsIn
         else if algorithm = ''SJF'' then simulateSJF procsIn
         else if algorithm = ''PRIORITY'' then simulatePriority procsIn
         else if algorithm = ''MLQ'' then
           simulateMLQ procsIn (nullish (mlqFgQuantum opts) 2)
             (Some (nullish (mlqBgQuantum opts) 4))
         else simulateRR procsIn (nullish (quantum opts) 4))"

section \<open>Example inputs\<close>

definition no_options :: options where
  "no_options = \<lparr>quantum = None, mlqFgQuantum = None, mlqBgQuantum = None\<rparr>"

definition empty_result :: result where
  "empty_result =
     \<lparr>out_trace = [], historySnapshots = [],
      stats = \<lparr>avgWaiting = NaN, avgTurnaround = NaN, makespan = NegInfinity,
               throughput = Num 0, processes = []\<rparr>\<rparr>"

definition one_job :: "proc_in list" where
  "one_job = [\<lparr>in_pid = ''P1'', in_arrival = 0, in_burst = 1, in_priority = None\<rparr>]"

section \<open>How a run evolves\<close>

text \<open>Two kinds of change make up every run. A quiet change leaves the clock, the two
  logs, and the identity, burst and remaining work of every process as they are (it may
  touch the ready structure, the \<open>enqueued\<close> flags and the start and completion times).
  A tick appends one snapshot and one trace entry for the current time and advances the
  clock by one; when the entry names a process, that process had work left and its
  remaining work, decremented by one, is what the snapshot holds.\<close>

definition agree :: "snapshot \<Rightarrow> tevent \<Rightarrow> bool" where
  "agree h e \<longleftrightarrow> snap_time h = ev_time e \<and> snap_cpu h = ev_cpu e \<and> snap_ready h = ev_ready e"

text \<open>\<open>unit_step c pids r r'\<close>: the vector \<open>r\<close> of remaining work becomes \<open>r'\<close> in a time
  unit whose CPU occupant is \<open>c\<close>.\<close>

definition unit_step :: "string option \<Rightarrow> string list \<Rightarrow> int list \<Rightarrow> int list \<Rightarrow> bool" where
  "unit_step c pids r r' \<longleftrightarrow>
     (case c of
        None \<Rightarrow> r' = r
      | Some x \<Rightarrow> (\<exists>i < length r. pids ! i = x \<and> 0 < r ! i \<and> r' = r[i := r ! i - 1]))"

definition quiet :: "'a sim_scheme \<Rightarrow> 'a sim_scheme \<Rightarrow> bool" where
  "quiet s s' \<longleftrightarrow>
     time s' = time s \<and> history s' = history s \<and> trace s' = trace s \<and>
     map pid (procs s') = map pid (procs s) \<and> map burst (procs s') = map burst (procs s) \<and>
     map remaining (procs s') = map remaining (procs s)"

definition tick :: "'a sim_scheme \<Rightarrow> 'a sim_scheme \<Rightarrow> bool" where
  "tick s s' \<longleftrightarrow>
     time s' = time s + 1 \<and>
     map pid (procs s') = map pid (procs s) \<and> map burst (procs s') = map burst (procs s) \<and>
     (\<exists>h e. history s' = history s @ [h] \<and> trace s' = trace s @ [e] \<and>
        ev_time e = time s \<and> agree h e \<and>
        map ps_pid (snap_procs h) = map pid (procs s) \<and>
        map ps_burst (snap_procs h) = map burst (procs s) \<and>
        map ps_remaining (snap_procs h) = map remaining (procs s') \<and>
        unit_step (ev_cpu e) (map pid (procs s)) (map remaining (procs s))
          (map remaining (procs s')))"

inductive evolve :: "'a sim_scheme \<Rightarrow> 'a sim_scheme \<Rightarrow> bool" where
  evolve_refl: "evolve s s"
| evolve_quiet: "evolve s s1 \<Longrightarrow> quiet s1 s2 \<Longrightarrow> evolve s s2"
| evolve_tick: "evolve s s1 \<Longrightarrow> tick s1 s2 \<Longrightarrow> evolve s s2"

section \<open>What holds of every reachable state\<close>

text \<open>The two logs run in step: entry \<open>k\<close> of each is for time \<open>k\<close>, with the same CPU
  occupant and the same ready contents, and the clock is the number of entries.\<close>

definition synced :: "'a sim_scheme \<Rightarrow> bool" where
  "synced s \<longleftrightarrow>
     length (history s) = length (trace s) \<and> time s = int (length (trace s)) \<and>
     (\<forall>k < length (trace s).
        ev_time (trace s ! k) = int k \<and> agree (history s ! k) (trace s ! k))"

text \<open>The remaining work of every process just before time unit \<open>k\<close>, read off the
  snapshots: the bursts for the first unit, the previous snapshot afterwards.\<close>

definition remaining_before :: "snapshot list \<Rightarrow> nat \<Rightarrow> int list" where
  "remaining_before hs k =
     (if k = 0 then map ps_burst (snap_procs (hs ! 0))
      else map ps_remaining (snap_procs (hs ! (k - 1))))"

text \<open>Snapshot \<open>k\<close> holds the remaining work after the unit of time \<open>k\<close>: the occupant's
  is one less than before, everything else is as before.\<close>

definition unit_applied :: "snapshot list \<Rightarrow> nat \<Rightarrow> bool" where
  "unit_applied hs k \<longleftrightarrow>
     unit_step (snap_cpu (hs ! k)) (map ps_pid (snap_procs (hs ! k))) (remaining_before hs k)
       (map ps_remaining (snap_procs (hs ! k)))"

definition recorded :: "'a sim_scheme \<Rightarrow> bool" where
  "recorded s \<longleftrightarrow>
     (\<forall>k < length (history s).
        map ps_pid (snap_procs (history s ! k)) = map pid (procs s) \<and>
        map ps_burst (snap_procs (history s ! k)) = map burst (procs s) \<and>
        unit_applied (history s) k) \<and>
     map remaining (procs s) =
       (if history s = [] then map burst (procs s)
        else map ps_remaining (snap_procs (last (history s))))"

text \<open>No process has more work left than its burst, and every process the trace names
  has a positive burst.\<close>

definition worked :: "'a sim_scheme \<Rightarrow> bool" where
  "worked s \<longleftrightarrow>
     list_all2 (\<le>) (map remaining (procs s)) (map burst (procs s)) \<and>
     (\<forall>e \<in> set (trace s). \<forall>x. ev_cpu e = Some x \<longrightarrow>
        (\<exists>k < length (procs s). map pid (procs s) ! k = x \<and> 0 < map burst (procs s) ! k))"

text \<open>The state a simulator starts its loop in.\<close>

definition fresh :: "'a sim_scheme \<Rightarrow> bool" where
  "fresh s \<longleftrightarrow>
     time s = 0 \<and> history s = [] \<and> trace s = [] \<and>
     map remaining (procs s) = map burst (procs s)"

text \<open>The initial state holds the processes of the descriptor list \<open>ds\<close>, possibly in
  another order.\<close>

definition loaded :: "descriptor list \<Rightarrow> 'a sim_scheme \<Rightarrow> bool" where
  "loaded ds s \<longleftrightarrow>
     fresh s \<and> length (procs s) = length ds \<and>
     set (map (\<lambda>p. (pid p, burst p)) (procs s)) = set (map (\<lambda>d. (pid d, burst d)) ds) \<and>
     (distinct (map pid ds) \<longrightarrow> distinct (map pid (procs s)))"

section \<open>Properties that every primitive step preserves\<close>

text \<open>An update of a process object is gentle when it keeps the descriptor, the
  \<open>enqueued\<close> flag and the completion time, and does not add work. \<open>preserved enq P\<close> says that \<open>P\<close> survives the
  simulator's \<open>enqueueArrivals\<close>, every emission and every gentle update.\<close>

definition gentle :: "(proc \<Rightarrow> proc) \<Rightarrow> bool" where
  "gentle f \<longleftrightarrow>
     (\<forall>p. pid (f p) = pid p \<and> arrival (f p) = arrival p \<and> burst (f p) = burst p \<and>
          priority (f p) = priority p \<and> enqueued (f p) = enqueued p \<and>
          completionTime (f p) = completionTime p \<and> remaining (f p) \<le> remaining p)"

definition preserved ::
  "('a sim_scheme \<Rightarrow> 'a sim_scheme) \<Rightarrow> ('a sim_scheme \<Rightarrow> bool) \<Rightarrow> bool" where
  "preserved enq P \<longleftrightarrow>
     (\<forall>s. P s \<longrightarrow> P (enq s)) \<and>
     (\<forall>c r e s. P s \<longrightarrow> P (emit c r e s)) \<and>
     (\<forall>i f s. P s \<longrightarrow> gentle f \<longrightarrow> P (upd_proc i f s))"

text \<open>Every identifier waiting in a ready queue is the \<open>pid\<close> of a process, so the
  \<open>find\<close> that follows a \<open>shift\<close> succeeds.\<close>

definition q_wf :: "qstate \<Rightarrow> bool" where
  "q_wf s \<longleftrightarrow> set (readyQueue s) \<subseteq> set (map pid (procs s))"

definition m_wf :: "mstate \<Rightarrow> bool" where
  "m_wf s \<longleftrightarrow> set (fgQueue s) \<union> set (bgQueue s) \<subseteq> set (map pid (procs s))"

definition late_job :: "proc_in list" where
  "late_job = [\<lparr>in_pid = ''P1'', in_arrival = 1, in_burst = 2, in_priority = None\<rparr>]"

definition zero_job :: "proc_in list" where
  "zero_job = [\<lparr>in_pid = ''P1'', in_arrival = 0, in_burst = 0, in_priority = None\<rparr>]"

definition mixed_jobs :: "proc_in list" where
  "mixed_jobs =
     [\<lparr>in_pid = ''P1'', in_arrival = 0, in_burst = 0, in_priority = None\<rparr>,
      \<lparr>in_pid = ''P2'', in_arrival = 0, in_burst = 1, in_priority = None\<rparr>]"

definition two_jobs :: "proc_in list" where
  "two_jobs =
     [\<lparr>in_pid = ''P1'', in_arrival = 0, in_burst = 2, in_priority = None\<rparr>,
      \<lparr>in_pid = ''P2'', in_arrival = 1, in_burst = 2, in_priority = None\<rparr>]"

definition background_jobs :: "proc_in list" where
  "background_jobs =
     [\<lparr>in_pid = ''A'', in_arrival = 0, in_burst = 5, in_priority = Some 1\<rparr>,
      \<lparr>in_pid = ''B'', in_arrival = 0, in_burst = 1, in_priority = Some 1\<rparr>]"

definition zero_quantum :: options where
  "zero_quantum = \<lparr>quantum = Some 0, mlqFgQuantum = None, mlqBgQuantum = None\<rparr>"

text \<open>The state in which Round Robin with quantum 0 turns round on \<open>one_job\<close>: the process
  is started, in the queue, and never runs.\<close>

definition spinning :: qstate where
  "spinning =
     \<lparr>procs =
        [\<lparr>pid = ''P1'', arrival = 0, burst = 1, priority = 0, remaining = 1,
          startTime = Some 0, completionTime = None, enqueued = True\<rparr>],
      time = 0, history = [], trace = [], readyQueue = [''P1'']\<rparr>"

text \<open>The loop was cut short by the ceiling: it stopped after \<open>maxIter\<close> iterations with work
  still pending.\<close>

definition cut_short :: "('s \<Rightarrow> bool) \<Rightarrow> (nat \<times> 's) option \<Rightarrow> bool" where
  "cut_short pending w =
     (case w of None \<Rightarrow> False | Some (iter, s) \<Rightarrow> iter = maxIter \<and> pending s)"

definition hits_ceiling :: "string \<Rightarrow> proc_in list \<Rightarrow> options \<Rightarrow> bool" where
  "hits_ceiling algorithm ps opts =
     (let procsIn = map normalize ps
      in if algorithm = ''FCFS'' then
           cut_short q_pending (while_iter q_pending fcfs_body 0 (q_init procsIn))
         else if algorithm = ''SJF'' then
           cut_short l_pending (while_iter l_pending (l_body sjf_cmp) 0 (l_init procsIn))
         else if algorithm = ''PRIORITY'' then
           cut_short l_pending (while_iter l_pending (l_body priority_cmp) 0 (l_init procsIn))
         else if algorithm = ''MLQ'' then
           cut_short m_pending
             (while_iter m_pending
                (mlq_body (nullish (mlqFgQuantum opts) 2) (Some (nullish (mlqBgQuantum opts) 4)))
                0 (m_init procsIn))
         else
           cut_short q_pending
             (while_iter q_pending (rr_body (nullish (quantum opts) 4)) 0 (q_init procsIn)))"

text \<open>A completion time is only ever set on a process with no work left, and every
  reference in \<open>readyList\<close> is to an object of \<open>procs\<close>.\<close>

definition finished_ok :: "'a sim_scheme \<Rightarrow> bool" where
  "finished_ok s \<longleftrightarrow> (\<forall>p \<in> set (procs s). completionTime p \<noteq> None \<longrightarrow> remaining p \<le> 0)"

definition l_wf :: "lstate \<Rightarrow> bool" where
  "l_wf s \<longleftrightarrow> (\<forall>i \<in> set (readyList s). i < length (procs s))"

section \<open>Selection points\<close>

text \<open>\<open>loop_head pending body s0 n s\<close>: started in \<open>s0\<close>, the loop
  \<open>while (pending && iter < maxIter) { iter++; body }\<close> tests its condition in state \<open>s\<close>
  after \<open>n\<close> iterations. These are the states in which a simulator selects.\<close>

inductive loop_head :: "('s \<Rightarrow> bool) \<Rightarrow> ('s \<Rightarrow> 's step) \<Rightarrow> 's \<Rightarrow> nat \<Rightarrow> 's \<Rightarrow> bool"
  for pending body s0 where
  loop_start: "loop_head pending body s0 0 s0"
| loop_next: "loop_head pending body s0 n s \<Longrightarrow> pending s \<Longrightarrow> n < maxIter \<Longrightarrow>
     body s = Continue s' \<Longrightarrow> loop_head pending body s0 (Suc n) s'"

text \<open>Every admitted foreground process with work left, other than those in \<open>X\<close> (the one
  holding the CPU), waits in the foreground queue; the identifiers in that queue and in
  \<open>X\<close> are those of foreground processes; identifiers are unique.\<close>

definition fg_queued :: "string set \<Rightarrow> mstate \<Rightarrow> bool" where
  "fg_queued X s \<longleftrightarrow>
     distinct (map pid (procs s)) \<and>
     (\<forall>p \<in> set (procs s).
        priority p = 0 \<and> enqueued p \<and> 0 < remaining p \<and> pid p \<notin> X \<longrightarrow>
        pid p \<in> set (fgQueue s)) \<and>
     (\<forall>y \<in> set (fgQueue s) \<union> X.
        (y, 0) \<in> set (map (\<lambda>p. (pid p, priority p)) (procs s)))"

definition fg_bg_jobs :: "proc_in list" where
  "fg_bg_jobs =
     [\<lparr>in_pid = ''B'', in_arrival = 0, in_burst = 2, in_priority = Some 1\<rparr>,
      \<lparr>in_pid = ''F'', in_arrival = 0, in_burst = 1, in_priority = Some 0\<rparr>]"

text \<open>For Round Robin: every admitted process with work left, other than those in \<open>X\<close>,
  waits in the ready queue, and identifiers are unique. And: every process whose arrival
  time has been reached and that has work left is admitted.\<close>

definition q_queued :: "string set \<Rightarrow> qstate \<Rightarrow> bool" where
  "q_queued X s \<longleftrightarrow>
     distinct (map pid (procs s)) \<and>
     (\<forall>p \<in> set (procs s).
        enqueued p \<and> 0 < remaining p \<and> pid p \<notin> X \<longrightarrow> pid p \<in> set (readyQueue s))"

definition caught_up :: "'a sim_scheme \<Rightarrow> bool" where
  "caught_up s \<longleftrightarrow> (\<forall>p \<in> set (procs s). arrival p \<le> time s \<and> 0 < remaining p \<longrightarrow> enqueued p)"

definition rr_jobs :: "proc_in list" where
  "rr_jobs =
     [\<lparr>in_pid = ''P1'', in_arrival = 0, in_burst = 3, in_priority = None\<rparr>,
      \<lparr>in_pid = ''P2'', in_arrival = 2, in_burst = 1, in_priority = None\<rparr>]"

section \<open>Basic facts about the helpers\<close>

lemma emit_sel [simp]:
  "procs (emit c r e s) = procs s"
  "time (emit c r e s) = time s + 1"
  "history (emit c r e s) = history s @ [snapshotState (time s) c (procs s) r]"
  "trace (emit c r e s) = trace s @ [\<lparr>ev_time = time s, ev_cpu = c, ev_ready = r, event = e\<rparr>]"
  by (simp_all add: emit_def)

lemma emit_more [simp]: "sim.more (emit c r e s) = sim.more s"
  by (simp add: emit_def)

lemma upd_proc_sel [simp]:
  "procs (upd_proc i f s) = (procs s)[i := f (procs s ! i)]"
  "time (upd_proc i f s) = time s"
  "history (upd_proc i f s) = history s"
  "trace (upd_proc i f s) = trace s"
  "sim.more (upd_proc i f s) = sim.more s"
  by (simp_all add: upd_proc_def)

lemma admit_maps [simp]:
  "length (admit t ps) = length ps"
  "map pid (admit t ps) = map pid ps"
  "map burst (admit t ps) = map burst ps"
  "map remaining (admit t ps) = map remaining ps"
  "map priority (admit t ps) = map priority ps"
  "map arrival (admit t ps) = map arrival ps"
  by (simp_all add: admit_def)

lemma admit_nth [simp]:
  "i < length ps \<Longrightarrow> pid (admit t ps ! i) = pid (ps ! i)"
  "i < length ps \<Longrightarrow> burst (admit t ps ! i) = burst (ps ! i)"
  "i < length ps \<Longrightarrow> remaining (admit t ps ! i) = remaining (ps ! i)"
  "i < length ps \<Longrightarrow> priority (admit t ps ! i) = priority (ps ! i)"
  "i < length ps \<Longrightarrow> enqueued (admit t ps ! i) = (enqueued (ps ! i) \<or> due t (ps ! i))"
  by (simp_all add: admit_def)

lemma enqueueArrivals_sel [simp]:
  "procs (enqueueArrivals s) = admit (time s) (procs s)"
  "time (enqueueArrivals s) = time s"
  "history (enqueueArrivals s) = history s"
  "trace (enqueueArrivals s) = trace s"
  "readyQueue (enqueueArrivals s) = readyQueue s @ map pid (filter (due (time s)) (procs s))"
  by (simp_all add: enqueueArrivals_def)

lemma enqueueArrivalsL_sel [simp]:
  "procs (enqueueArrivalsL s) = admit (time s) (procs s)"
  "time (enqueueArrivalsL s) = time s"
  "history (enqueueArrivalsL s) = history s"
  "trace (enqueueArrivalsL s) = trace s"
  "readyList (enqueueArrivalsL s) =
     readyList s @ filter (\<lambda>i. due (time s) (procs s ! i)) [0..<length (procs s)]"
  by (simp_all add: enqueueArrivalsL_def)

lemma enqueueArrivalsM_sel [simp]:
  "procs (enqueueArrivalsM s) = admit (time s) (procs s)"
  "time (enqueueArrivalsM s) = time s"
  "history (enqueueArrivalsM s) = history s"
  "trace (enqueueArrivalsM s) = trace s"
  "fgQueue (enqueueArrivalsM s) =
     fgQueue s @ map pid (filter (\<lambda>p. due (time s) p \<and> priority p = 0) (procs s))"
  "bgQueue (enqueueArrivalsM s) =
     bgQueue s @ map pid (filter (\<lambda>p. due (time s) p \<and> priority p \<noteq> 0) (procs s))"
  by (simp_all add: enqueueArrivalsM_def)

lemma map_upd_same:
  assumes "f (g (xs ! i)) = f (xs ! i)"
  shows "map f (xs[i := g (xs ! i)]) = map f xs"
proof (rule nth_equalityI)
  show "length (map f (xs[i := g (xs ! i)])) = length (map f xs)" by simp
next
  fix k assume "k < length (map f (xs[i := g (xs ! i)]))"
  then show "map f (xs[i := g (xs ! i)]) ! k = map f xs ! k"
    using assms by (cases "k = i") simp_all
qed

lemma mark_start_sel [simp]:
  "time (mark_start i s) = time s"
  "history (mark_start i s) = history s"
  "trace (mark_start i s) = trace s"
  "sim.more (mark_start i s) = sim.more s"
  "length (procs (mark_start i s)) = length (procs s)"
  "map pid (procs (mark_start i s)) = map pid (procs s)"
  "map burst (procs (mark_start i s)) = map burst (procs s)"
  "map remaining (procs (mark_start i s)) = map remaining (procs s)"
  "map priority (procs (mark_start i s)) = map priority (procs s)"
  "map enqueued (procs (mark_start i s)) = map enqueued (procs s)"
  by (simp_all add: mark_start_def map_upd_same)

lemma mark_done_sel [simp]:
  "time (mark_done i s) = time s"
  "history (mark_done i s) = history s"
  "trace (mark_done i s) = trace s"
  "sim.more (mark_done i s) = sim.more s"
  "length (procs (mark_done i s)) = length (procs s)"
  "map pid (procs (mark_done i s)) = map pid (procs s)"
  "map burst (procs (mark_done i s)) = map burst (procs s)"
  "map remaining (procs (mark_done i s)) = map remaining (procs s)"
  "map priority (procs (mark_done i s)) = map priority (procs s)"
  "map enqueued (procs (mark_done i s)) = map enqueued (procs s)"
  by (simp_all add: mark_done_def map_upd_same)

section \<open>The empty process list\<close>

lemma while_iter_done: "\<not> pending s \<Longrightarrow> while_iter pending body iter s = Some (iter, s)"
  by (simp add: while_iter.simps)

lemma computeStats_Nil:
  "computeStats [] =
     \<lparr>avgWaiting = NaN, avgTurnaround = NaN, makespan = NegInfinity, throughput = Num 0,
      processes = []\<rparr>"
  by (simp add: computeStats_def Math_max_def Math_min_def js_max2_def)

lemma q_init_Nil:
  "q_init [] = \<lparr>procs = [], time = 0, history = [], trace = [], readyQueue = []\<rparr>"
  by (simp add: q_init_def enqueueArrivals_def sort_by_def admit_def)

lemma l_init_Nil:
  "l_init [] = \<lparr>procs = [], time = 0, history = [], trace = [], readyList = []\<rparr>"
  by (simp add: l_init_def enqueueArrivalsL_def admit_def)

lemma m_init_Nil:
  "m_init [] = \<lparr>procs = [], time = 0, history = [], trace = [], fgQueue = [], bgQueue = []\<rparr>"
  by (simp add: m_init_def enqueueArrivalsM_def sort_by_def admit_def)

lemma simulateRR_Nil: "simulateRR [] q = Inr empty_result"
  by (simp add: simulateRR_def q_init_Nil while_iter_done q_pending_def outcome_def finish_def
      computeStats_Nil empty_result_def)

lemma simulateFCFS_Nil: "simulateFCFS [] = Inr empty_result"
  by (simp add: simulateFCFS_def q_init_Nil while_iter_done q_pending_def outcome_def finish_def
      computeStats_Nil empty_result_def)

lemma simulateSJF_Nil: "simulateSJF [] = Inr empty_result"
  by (simp add: simulateSJF_def l_init_Nil while_iter_done l_pending_def outcome_def finish_def
      computeStats_Nil empty_result_def)

lemma simulatePriority_Nil: "simulatePriority [] = Inr empty_result"
  by (simp add: simulatePriority_def l_init_Nil while_iter_done l_pending_def outcome_def
      finish_def computeStats_Nil empty_result_def)

lemma simulateMLQ_Nil: "simulateMLQ [] f b = Inr empty_result"
  by (simp add: simulateMLQ_def m_init_Nil while_iter_done m_pending_def outcome_def finish_def
      computeStats_Nil empty_result_def)

section \<open>Evaluating a run\<close>

lemma run_for_numeral:
  "run_for enq rdy i x (numeral k) s =
     run_for enq rdy i x (pred_numeral k) (run_unit enq rdy i x s)"
  by (simp add: numeral_eq_Suc)

lemmas sim_eval =
  simulate_def normalize_def nullish_def spawn_def sort_by_def admit_def due_def
  while_iter.simps idle_until.simps run_for_numeral mark_start_def mark_done_def upd_proc_def
  run_unit_def emit_def snapshotState_def makeProcessState_def exec_label_def outcome_def
  finish_def finalize_def computeStats_def Math_max_def Math_min_def js_max2_def js_min2_def
  Number_nullable_def Let_def maxIter_def

lemmas rr_eval =
  simulateRR_def q_init_def enqueueArrivals_def q_pending_def q_idle_def rr_body_def rr_turn_def

section \<open>Claims about the entry point\<close>

text \<open>
  C2 as the specification states it: for a tag outside the five known ones, \<open>simulate\<close>
  fails with \<open>UnsupportedAlgorithm\<close> and runs no scheduling algorithm. The \<open>default\<close>
  branch of the \<open>switch\<close> runs Round Robin instead: with the tag \<open>LOTTERY\<close> and one process
  of burst 1, \<open>simulate\<close> returns a trace in which that process executes.
\<close>

theorem C2_unknown_tag_counterexample:
  "simulate ''LOTTERY'' one_job no_options =
     Inr \<lparr>out_trace =
            [\<lparr>ev_time = 0, ev_cpu = Some ''P1'', ev_ready = [], event = ''exec(P1)''\<rparr>],
          historySnapshots =
            [\<lparr>snap_time = 0, snap_cpu = Some ''P1'', snap_ready = [],
              snap_procs =
                [\<lparr>ps_pid = ''P1'', ps_arrival = 0, ps_burst = 1, ps_remaining = 0,
                  ps_startTime = Some 0, ps_completionTime = None, ps_priority = 0\<rparr>]\<rparr>],
          stats =
            \<lparr>avgWaiting = Num 0, avgTurnaround = Num 1, makespan = Num 1, throughput = Num 1,
             processes =
               [\<lparr>pid = ''P1'', arrival = 0, burst = 1, priority = 0, remaining = 0,
                 startTime = Some 0, completionTime = Some 1, enqueued = True,
                 turnaround = 1, waiting = 0\<rparr>]\<rparr>\<rparr>"
  by (simp add: sim_eval rr_eval one_job_def no_options_def)

text \<open>
  C2, amended: for every algorithm tag outside \<open>{RR, FCFS, SJF, PRIORITY, MLQ}\<close> and every
  process list and options, \<open>simulate\<close> runs Round Robin with the quantum
  \<open>options.quantum ?? 4\<close>; its result is the one the tag \<open>RR\<close> gives.
\<close>

theorem C2_unknown_tag_runs_RR:
  "algorithm \<notin> {''RR'', ''FCFS'', ''SJF'', ''PRIORITY'', ''MLQ''} \<Longrightarrow>
   simulate algorithm ps opts = simulateRR (map normalize ps) (nullish (quantum opts) 4) \<and>
   simulate algorithm ps opts = simulate ''RR'' ps opts"
  by (simp add: simulate_def)

theorem C2_unknown_tag_runs_RR_witness:
  "''LOTTERY'' \<notin> {''RR'', ''FCFS'', ''SJF'', ''PRIORITY'', ''MLQ''} \<and>
   (simulate ''LOTTERY'' one_job no_options =
      simulateRR (map normalize one_job) (nullish (quantum no_options) 4) \<and>
    simulate ''LOTTERY'' one_job no_options = simulate ''RR'' one_job no_options)"
proof -
  have h: "''LOTTERY'' \<notin> {''RR'', ''FCFS'', ''SJF'', ''PRIORITY'', ''MLQ''}" by simp
  show ?thesis by (rule conjI [OF h C2_unknown_tag_runs_RR [OF h]])
qed

text \<open>
  C3 as the specification states it: on the empty process list \<open>simulate\<close> fails with
  \<open>InvalidInput\<close> and never returns statistics containing \<open>NaN\<close>. No simulator checks its
  input: with the tag \<open>FCFS\<close> the call returns, and both averages are \<open>NaN\<close>.
\<close>

theorem C3_empty_list_counterexample:
  "simulate ''FCFS'' [] no_options =
     Inr \<lparr>out_trace = [], historySnapshots = [],
          stats = \<lparr>avgWaiting = NaN, avgTurnaround = NaN, makespan = NegInfinity,
                   throughput = Num 0, processes = []\<rparr>\<rparr>"
  by (simp add: simulate_def simulateFCFS_def q_init_def enqueueArrivals_def sort_by_def
      admit_def while_iter.simps q_pending_def outcome_def finish_def computeStats_def
      Math_max_def Math_min_def js_max2_def no_options_def)

text \<open>
  C3, amended: for the empty process list and every algorithm tag and options, \<open>simulate\<close>
  returns normally: the trace and the snapshots are empty, \<open>avgWaiting\<close> and \<open>avgTurnaround\<close>
  are \<open>NaN\<close> (0 / 0), \<open>makespan\<close> is \<open>-Infinity\<close>, \<open>throughput\<close> is 0 and \<open>processes\<close> is
  empty.
\<close>

theorem C3_empty_list_result:
  "simulate algorithm [] opts =
     Inr \<lparr>out_trace = [], historySnapshots = [],
          stats = \<lparr>avgWaiting = NaN, avgTurnaround = NaN, makespan = NegInfinity,
                   throughput = Num 0, processes = []\<rparr>\<rparr>"
  by (simp add: simulate_def simulateRR_Nil simulateFCFS_Nil simulateSJF_Nil
      simulatePriority_Nil simulateMLQ_Nil empty_result_def)

section \<open>Every simulator evolves by quiet changes and ticks\<close>

lemma evolve_trans: "evolve s1 s2 \<Longrightarrow> evolve s0 s1 \<Longrightarrow> evolve s0 s2"
  by (induction rule: evolve.induct) (auto intro: evolve.intros)

lemma quiet_evolve: "quiet s s' \<Longrightarrow> evolve s s'"
  by (rule evolve_quiet [OF evolve_refl])

lemma tick_evolve: "tick s s' \<Longrightarrow> evolve s s'"
  by (rule evolve_tick [OF evolve_refl])

lemma quiet_refl: "quiet s s"
  by (simp add: quiet_def)

lemma quiet_enqueueArrivals: "quiet s (enqueueArrivals s)"
  by (simp add: quiet_def)

lemma quiet_enqueueArrivalsL: "quiet s (enqueueArrivalsL s)"
  by (simp add: quiet_def)

lemma quiet_enqueueArrivalsM: "quiet s (enqueueArrivalsM s)"
  by (simp add: quiet_def)

lemma quiet_mark_start: "quiet s (mark_start i s)"
  by (simp add: quiet_def)

lemma quiet_mark_done: "quiet s (mark_done i s)"
  by (simp add: quiet_def)

lemma quiet_readyQueue: "quiet s (s\<lparr>readyQueue := q\<rparr>)"
  by (simp add: quiet_def)

lemma quiet_readyList: "quiet s (s\<lparr>readyList := q\<rparr>)"
  by (simp add: quiet_def)

lemma quiet_fgQueue: "quiet s (s\<lparr>fgQueue := q\<rparr>)"
  by (simp add: quiet_def)

lemma quiet_bgQueue: "quiet s (s\<lparr>bgQueue := q\<rparr>)"
  by (simp add: quiet_def)

lemma makeProcessState_maps [simp]:
  "length (makeProcessState ps) = length ps"
  "map ps_pid (makeProcessState ps) = map pid ps"
  "map ps_burst (makeProcessState ps) = map burst ps"
  "map ps_remaining (makeProcessState ps) = map remaining ps"
  by (simp_all add: makeProcessState_def)

lemma snapshotState_sel [simp]:
  "snap_time (snapshotState t c ps r) = t"
  "snap_cpu (snapshotState t c ps r) = c"
  "snap_ready (snapshotState t c ps r) = r"
  "snap_procs (snapshotState t c ps r) = makeProcessState ps"
  by (simp_all add: snapshotState_def)

lemma tick_idle: "tick s (emit None rdy ev s)"
  by (simp add: tick_def agree_def unit_step_def)

lemma tick_quiet:
  assumes "tick s s1" "quiet s1 s2"
  shows "tick s s2"
proof -
  from assms(1) obtain h e where he:
    "history s1 = history s @ [h]" "trace s1 = trace s @ [e]" "ev_time e = time s" "agree h e"
    "map ps_pid (snap_procs h) = map pid (procs s)"
    "map ps_burst (snap_procs h) = map burst (procs s)"
    "map ps_remaining (snap_procs h) = map remaining (procs s1)"
    "unit_step (ev_cpu e) (map pid (procs s)) (map remaining (procs s))
       (map remaining (procs s1))"
    unfolding tick_def by blast
  from assms(2) have q: "time s2 = time s1" "history s2 = history s1" "trace s2 = trace s1"
    "map pid (procs s2) = map pid (procs s1)" "map burst (procs s2) = map burst (procs s1)"
    "map remaining (procs s2) = map remaining (procs s1)"
    by (simp_all add: quiet_def)
  from assms(1) have t: "time s1 = time s + 1" "map pid (procs s1) = map pid (procs s)"
    "map burst (procs s1) = map burst (procs s)"
    by (simp_all add: tick_def)
  show ?thesis
    unfolding tick_def using he q t by (intro conjI exI [of _ h] exI [of _ e]) simp_all
qed

lemma tick_work:
  assumes "i < length (procs s)" "pid (procs s ! i) = x" "0 < remaining (procs s ! i)"
  shows "tick s (emit (Some x) rdy ev (upd_proc i (\<lambda>p. p\<lparr>remaining := remaining p - 1\<rparr>) s))"
  using assms by (auto simp: tick_def agree_def unit_step_def map_upd_same map_update
      list_update_same_conv)

lemma tick_run_unit:
  assumes "\<And>s. quiet s (enq s)"
    and "i < length (procs s)" "pid (procs s ! i) = x" "0 < remaining (procs s ! i)"
  shows "tick s (run_unit enq rdy i x s)"
  unfolding run_unit_def Let_def
  by (rule tick_quiet [OF tick_work [OF assms(2-4)] assms(1)])


text \<open>Rules for the loops: what every step of a loop preserves, the loop preserves.\<close>

lemma idle_until_pres:
  "(\<And>s. P s \<Longrightarrow> P (emit None rdy ''idle'' s)) \<Longrightarrow> P s \<Longrightarrow> P (idle_until rdy j s)"
proof (induction rdy j s rule: idle_until.induct)
  case (1 rdy j s)
  show ?case
  proof (cases "time s < j")
    case True
    have e: "P (emit None rdy ''idle'' s)"
      by (rule "1.prems"(1)) (rule "1.prems"(2))
    have "P (idle_until rdy j (emit None rdy ''idle'' s))"
      by (rule "1.IH" [OF True]) (erule "1.prems"(1), rule e)
    moreover have "idle_until rdy j s = idle_until rdy j (emit None rdy ''idle'' s)"
      using True by (subst idle_until.simps) simp
    ultimately show ?thesis by simp
  next
    case False
    then have "idle_until rdy j s = s"
      by (subst idle_until.simps) simp
    with "1.prems"(2) show ?thesis by simp
  qed
qed

lemma run_for_pres:
  assumes "\<And>s. P s \<Longrightarrow> P (run_unit enq rdy i x s)"
  shows "P s \<Longrightarrow> P (run_for enq rdy i x n s)"
  by (induction n arbitrary: s) (simp_all add: assms)

lemma run_unit_remaining:
  assumes "\<And>s. map remaining (procs (enq s)) = map remaining (procs s)"
    and "i < length (procs s)"
  shows "remaining (procs (run_unit enq rdy i x s) ! i) = remaining (procs s ! i) - 1"
proof -
  let ?s1 = "emit (Some x) (rdy (upd_proc i (\<lambda>p. p\<lparr>remaining := remaining p - 1\<rparr>) s))
     (exec_label x) (upd_proc i (\<lambda>p. p\<lparr>remaining := remaining p - 1\<rparr>) s)"
  have "map remaining (procs (enq ?s1)) ! i = map remaining (procs ?s1) ! i"
    by (simp only: assms(1))
  moreover have "length (map remaining (procs (enq ?s1))) = length (map remaining (procs ?s1))"
    by (simp only: assms(1))
  ultimately show ?thesis
    using assms(2) by (simp add: run_unit_def Let_def)
qed

lemma run_unit_length:
  assumes "\<And>s. map remaining (procs (enq s)) = map remaining (procs s)"
  shows "length (procs (run_unit enq rdy i x s)) = length (procs s)"
proof -
  have "length (map remaining (procs (run_unit enq rdy i x s))) = length (procs s)"
    unfolding run_unit_def Let_def by (simp only: assms) simp
  then show ?thesis by simp
qed

text \<open>A slice of \<open>n\<close> units, when the process has at least \<open>n\<close> units of work left.\<close>

lemma run_for_evolve:
  assumes q: "\<And>s. quiet s (enq s)"
  shows "i < length (procs s) \<Longrightarrow> pid (procs s ! i) = x \<Longrightarrow> int n \<le> remaining (procs s ! i)
    \<Longrightarrow> evolve s (run_for enq rdy i x n s)"
proof (induction n arbitrary: s)
  case 0
  show ?case by (simp add: evolve_refl)
next
  case (Suc n)
  let ?s1 = "run_unit enq rdy i x s"
  have r: "\<And>s. map remaining (procs (enq s)) = map remaining (procs s)"
    using q by (simp add: quiet_def)
  have t: "tick s ?s1"
    using Suc.prems by (intro tick_run_unit q) simp_all
  have len: "i < length (procs ?s1)"
    using Suc.prems by (simp add: run_unit_length [OF r])
  have "map pid (procs ?s1) ! i = map pid (procs s) ! i"
    using t by (simp add: tick_def)
  then have p: "pid (procs ?s1 ! i) = x"
    using len Suc.prems by simp
  have "int n \<le> remaining (procs ?s1 ! i)"
    using Suc.prems by (simp add: run_unit_remaining [OF r])
  from Suc.IH [OF len p this] have "evolve ?s1 (run_for enq rdy i x n ?s1)" .
  then show ?case
    using evolve_trans [OF _ tick_evolve [OF t]] by simp
qed

lemma idle_until_evolve: "evolve s (idle_until rdy j s)"
  by (rule idle_until_pres [where P = "evolve s"])
     (auto intro: evolve_tick tick_idle evolve_refl)

lemma fcfs_run_evolve:
  "i < length (procs s) \<longrightarrow> pid (procs s ! i) = x \<Longrightarrow> evolve s (fcfs_run i x s)"
proof (induction i x s rule: fcfs_run.induct)
  case (1 i x s)
  show ?case
  proof (cases "i < length (procs s) \<and> 0 < remaining (procs s ! i)")
    case False
    then have "fcfs_run i x s = s"
      by (subst fcfs_run.simps) auto
    then show ?thesis by (simp add: evolve_refl)
  next
    case True
    let ?s1 = "run_unit enqueueArrivals readyQueue i x s"
    have t: "tick s ?s1"
      using True "1.prems" by (intro tick_run_unit quiet_enqueueArrivals) simp_all
    have len: "i < length (procs ?s1)"
      using True by (simp add: run_unit_length)
    have "map pid (procs ?s1) ! i = map pid (procs s) ! i"
      using t by (simp add: tick_def)
    then have "pid (procs ?s1 ! i) = x"
      using len True "1.prems" by simp
    with "1.IH" True have "evolve ?s1 (fcfs_run i x ?s1)" by blast
    then have "evolve s (fcfs_run i x ?s1)"
      by (rule evolve_trans) (rule tick_evolve [OF t])
    moreover have "fcfs_run i x s = fcfs_run i x ?s1"
      using True by (subst fcfs_run.simps) simp
    ultimately show ?thesis by simp
  qed
qed

lemma l_run_evolve:
  "i < length (procs s) \<longrightarrow> pid (procs s ! i) = x \<Longrightarrow> evolve s (l_run i x s)"
proof (induction i x s rule: l_run.induct)
  case (1 i x s)
  show ?case
  proof (cases "i < length (procs s) \<and> 0 < remaining (procs s ! i)")
    case False
    then have "l_run i x s = s"
      by (subst l_run.simps) auto
    then show ?thesis by (simp add: evolve_refl)
  next
    case True
    let ?s1 = "run_unit enqueueArrivalsL ready_pids i x s"
    have t: "tick s ?s1"
      using True "1.prems" by (intro tick_run_unit quiet_enqueueArrivalsL) simp_all
    have len: "i < length (procs ?s1)"
      using True by (simp add: run_unit_length)
    have "map pid (procs ?s1) ! i = map pid (procs s) ! i"
      using t by (simp add: tick_def)
    then have "pid (procs ?s1 ! i) = x"
      using len True "1.prems" by simp
    with "1.IH" True have "evolve ?s1 (l_run i x ?s1)" by blast
    then have "evolve s (l_run i x ?s1)"
      by (rule evolve_trans) (rule tick_evolve [OF t])
    moreover have "l_run i x s = l_run i x ?s1"
      using True by (subst l_run.simps) simp
    ultimately show ?thesis by simp
  qed
qed

lemma mlq_run_evolve:
  "i < length (procs s) \<longrightarrow> pid (procs s ! i) = x \<Longrightarrow> evolve s (mlq_run i x s)"
proof (induction i x s rule: mlq_run.induct)
  case (1 i x s)
  show ?case
  proof (cases "i < length (procs s) \<and> 0 < remaining (procs s ! i)")
    case False
    then have "mlq_run i x s = s"
      by (subst mlq_run.simps) auto
    then show ?thesis by (simp add: evolve_refl)
  next
    case True
    let ?s1 = "run_unit enqueueArrivalsM m_ready i x s"
    have t: "tick s ?s1"
      using True "1.prems" by (intro tick_run_unit quiet_enqueueArrivalsM) simp_all
    have len: "i < length (procs ?s1)"
      using True by (simp add: run_unit_length)
    have "map pid (procs ?s1) ! i = map pid (procs s) ! i"
      using t by (simp add: tick_def)
    then have "pid (procs ?s1 ! i) = x"
      using len True "1.prems" by simp
    with "1.IH" True have "evolve ?s1 (mlq_run i x ?s1)" by blast
    then have "evolve s (mlq_run i x ?s1)"
      by (rule evolve_trans) (rule tick_evolve [OF t])
    moreover have "mlq_run i x s = mlq_run i x ?s1"
      using True by (subst mlq_run.simps) simp
    ultimately show ?thesis by simp
  qed
qed

lemma map_eq_nthD: "map f xs = map f ys \<Longrightarrow> i < length xs \<Longrightarrow> f (xs ! i) = f (ys ! i)"
proof -
  assume a: "map f xs = map f ys" and b: "i < length xs"
  from a have "length xs = length ys" by (rule map_eq_imp_length_eq)
  with b have "map f xs ! i = f (xs ! i)" "map f ys ! i = f (ys ! i)" by simp_all
  with a show ?thesis by simp
qed

lemma findIndex_Some: "findIndex P xs = Some i \<Longrightarrow> i < length xs \<and> P (xs ! i)"
  by (induction xs arbitrary: i) (auto split: if_splits)

lemma findIndex_None: "findIndex P xs = None \<Longrightarrow> x \<in> set xs \<Longrightarrow> \<not> P x"
  by (induction xs) (auto split: if_splits)

lemma while_iter_rule:
  "(\<And>s s'. I s \<Longrightarrow> pending s \<Longrightarrow> body s = Continue s' \<or> body s = Break s' \<Longrightarrow> I s') \<Longrightarrow>
   I s \<Longrightarrow> while_iter pending body iter s = Some (iter', s') \<Longrightarrow> I s'"
proof (induction pending body iter s rule: while_iter.induct)
  case (1 pending body iter s)
  show ?case
  proof (cases "pending s \<and> iter < maxIter")
    case False
    then have "while_iter pending body iter s = Some (iter, s)"
      by (subst while_iter.simps) auto
    with "1.prems" show ?thesis by simp
  next
    case True
    show ?thesis
    proof (cases "body s")
      case (Continue s1)
      have i1: "I s1"
        using "1.prems"(1) [OF "1.prems"(2)] True Continue by blast
      have "while_iter pending body iter s = while_iter pending body (iter + 1) s1"
        using True Continue by (subst while_iter.simps) simp
      with "1.prems"(3) have r: "while_iter pending body (iter + 1) s1 = Some (iter', s')"
        by simp
      show ?thesis
        by (rule "1.IH" [OF True Continue]) (erule "1.prems"(1), assumption+, rule i1, rule r)
    next
      case (Break s1)
      have i1: "I s1"
        using "1.prems"(1) [OF "1.prems"(2)] True Break by blast
      have "while_iter pending body iter s = Some (iter + 1, s1)"
        using True Break by (subst while_iter.simps) simp
      with "1.prems"(3) i1 show ?thesis by simp
    next
      case Throw
      have "while_iter pending body iter s = None"
        using True Throw by (subst while_iter.simps) simp
      with "1.prems"(3) show ?thesis by simp
    qed
  qed
qed

lemma while_iter_total:
  "(\<And>s s'. I s \<Longrightarrow> pending s \<Longrightarrow> body s = Continue s' \<or> body s = Break s' \<Longrightarrow> I s') \<Longrightarrow>
   (\<And>s. I s \<Longrightarrow> pending s \<Longrightarrow> body s \<noteq> Throw) \<Longrightarrow>
   I s \<Longrightarrow> \<exists>iter' s'. while_iter pending body iter s = Some (iter', s')"
proof (induction pending body iter s rule: while_iter.induct)
  case (1 pending body iter s)
  show ?case
  proof (cases "pending s \<and> iter < maxIter")
    case False
    then have "while_iter pending body iter s = Some (iter, s)"
      by (subst while_iter.simps) auto
    then show ?thesis by simp
  next
    case True
    show ?thesis
    proof (cases "body s")
      case (Continue s1)
      have i1: "I s1"
        using "1.prems"(1) [OF "1.prems"(3)] True Continue by blast
      have e: "while_iter pending body iter s = while_iter pending body (iter + 1) s1"
        using True Continue by (subst while_iter.simps) simp
      have "\<exists>iter' s'. while_iter pending body (iter + 1) s1 = Some (iter', s')"
        by (rule "1.IH" [OF True Continue])
           (erule "1.prems"(1), assumption+, erule "1.prems"(2), assumption, rule i1)
      with e show ?thesis by simp
    next
      case (Break s1)
      have "while_iter pending body iter s = Some (iter + 1, s1)"
        using True Break by (subst while_iter.simps) simp
      then show ?thesis by simp
    next
      case Throw
      with "1.prems"(2) [OF "1.prems"(3)] True show ?thesis by simp
    qed
  qed
qed

lemma q_idle_evolve: "q_idle s = Continue s' \<or> q_idle s = Break s' \<Longrightarrow> evolve s s'"
  by (auto simp: q_idle_def split: option.splits
      intro: evolve_refl evolve_quiet [OF idle_until_evolve quiet_enqueueArrivals])

lemma l_idle_evolve: "l_idle s = Continue s' \<or> l_idle s = Break s' \<Longrightarrow> evolve s s'"
  by (auto simp: l_idle_def split: option.splits
      intro: evolve_refl evolve_quiet [OF idle_until_evolve quiet_enqueueArrivalsL])

lemma m_idle_evolve: "m_idle s = Continue s' \<or> m_idle s = Break s' \<Longrightarrow> evolve s s'"
  by (auto simp: m_idle_def split: option.splits
      intro: evolve_refl evolve_quiet [OF idle_until_evolve quiet_enqueueArrivalsM])

lemma mark_start_nth:
  "i < length (procs s) \<Longrightarrow> pid (procs (mark_start j s) ! i) = pid (procs s ! i)"
  "i < length (procs s) \<Longrightarrow> remaining (procs (mark_start j s) ! i) = remaining (procs s ! i)"
  by (rule map_eq_nthD [of _ "procs (mark_start j s)"]; simp)+

text \<open>A quantum slice: at most the remaining work is executed.\<close>

lemma slice_evolve:
  assumes q: "\<And>s. quiet s (enq s)"
    and i: "i < length (procs s)" "pid (procs s ! i) = x"
  shows "evolve s (run_for enq rdy i x (nat (min qu (remaining (procs s ! i)))) s)"
proof (cases "nat (min qu (remaining (procs s ! i))) = 0")
  case True
  then show ?thesis by (simp add: evolve_refl)
next
  case False
  then have "int (nat (min qu (remaining (procs s ! i)))) \<le> remaining (procs s ! i)"
    by linarith
  then show ?thesis
    by (rule run_for_evolve [OF q i])
qed

lemma rr_turn_evolve:
  assumes "i < length (procs s)" "pid (procs s ! i) = x"
  shows "evolve s (rr_turn qu x i s)"
proof -
  let ?s1 = "mark_start i s"
  let ?s2 = "run_for enqueueArrivals readyQueue i x (nat (min qu (remaining (procs ?s1 ! i)))) ?s1"
  have "evolve ?s1 ?s2"
    using assms by (intro slice_evolve quiet_enqueueArrivals) (simp_all add: mark_start_nth)
  then have e: "evolve s ?s2"
    by (rule evolve_trans) (rule quiet_evolve [OF quiet_mark_start])
  show ?thesis
    unfolding rr_turn_def Let_def
    by (auto intro: evolve_quiet [OF e quiet_mark_done] evolve_quiet [OF e quiet_readyQueue])
qed

lemma fcfs_turn_evolve:
  assumes "i < length (procs s)" "pid (procs s ! i) = x"
  shows "evolve s (fcfs_turn x i s)"
proof -
  have "evolve (mark_start i s) (fcfs_run i x (mark_start i s))"
    using assms by (intro fcfs_run_evolve) (simp add: mark_start_nth)
  then have "evolve s (fcfs_run i x (mark_start i s))"
    by (rule evolve_trans) (rule quiet_evolve [OF quiet_mark_start])
  then show ?thesis
    unfolding fcfs_turn_def by (rule evolve_quiet) (rule quiet_mark_done)
qed

lemma l_turn_evolve: "evolve s (l_turn i s)"
proof -
  have "evolve (mark_start i s) (l_run i (pid (procs s ! i)) (mark_start i s))"
    by (intro l_run_evolve) (simp add: mark_start_nth)
  then have "evolve s (l_run i (pid (procs s ! i)) (mark_start i s))"
    by (rule evolve_trans) (rule quiet_evolve [OF quiet_mark_start])
  then show ?thesis
    unfolding l_turn_def by (rule evolve_quiet) (rule quiet_mark_done)
qed

lemma mlq_fg_turn_evolve:
  assumes "i < length (procs s)" "pid (procs s ! i) = x"
  shows "evolve s (mlq_fg_turn qu x i s)"
proof -
  let ?s1 = "mark_start i s"
  let ?s2 = "run_for enqueueArrivalsM m_ready i x (nat (min qu (remaining (procs ?s1 ! i)))) ?s1"
  have "evolve ?s1 ?s2"
    using assms by (intro slice_evolve quiet_enqueueArrivalsM) (simp_all add: mark_start_nth)
  then have e: "evolve s ?s2"
    by (rule evolve_trans) (rule quiet_evolve [OF quiet_mark_start])
  show ?thesis
    unfolding mlq_fg_turn_def Let_def
    by (auto intro: evolve_quiet [OF e quiet_mark_done] evolve_quiet [OF e quiet_fgQueue])
qed

lemma mlq_bg_turn_evolve:
  assumes "i < length (procs s)" "pid (procs s ! i) = x"
  shows "evolve s (mlq_bg_turn bq x i s)"
proof (cases bq)
  case None
  have "evolve (mark_start i s) (mlq_run i x (mark_start i s))"
    using assms by (intro mlq_run_evolve) (simp add: mark_start_nth)
  then have "evolve s (mlq_run i x (mark_start i s))"
    by (rule evolve_trans) (rule quiet_evolve [OF quiet_mark_start])
  then have "evolve s (mark_done i (mlq_run i x (mark_start i s)))"
    by (rule evolve_quiet) (rule quiet_mark_done)
  with None show ?thesis
    by (simp add: mlq_bg_turn_def)
next
  case (Some qu)
  let ?s1 = "mark_start i s"
  let ?s2 = "run_for enqueueArrivalsM m_ready i x (nat (min qu (remaining (procs ?s1 ! i)))) ?s1"
  have "evolve ?s1 ?s2"
    using assms by (intro slice_evolve quiet_enqueueArrivalsM) (simp_all add: mark_start_nth)
  then have e: "evolve s ?s2"
    by (rule evolve_trans) (rule quiet_evolve [OF quiet_mark_start])
  show ?thesis
    unfolding mlq_bg_turn_def Let_def Some
    by (auto intro: evolve_quiet [OF e quiet_mark_done] evolve_quiet [OF e quiet_bgQueue])
qed

lemma rr_body_evolve:
  assumes "rr_body qu s = Continue s' \<or> rr_body qu s = Break s'"
  shows "evolve s s'"
proof -
  let ?s1 = "enqueueArrivals s"
  have e1: "evolve s ?s1" by (rule quiet_evolve [OF quiet_enqueueArrivals])
  show ?thesis
  proof (cases "readyQueue ?s1")
    case Nil
    with assms have "q_idle ?s1 = Continue s' \<or> q_idle ?s1 = Break s'"
      by (simp add: rr_body_def Let_def)
    then show ?thesis
      by (rule evolve_trans [OF q_idle_evolve e1])
  next
    case (Cons x rest)
    show ?thesis
    proof (cases "findIndex (\<lambda>p. pid p = x) (procs ?s1)")
      case None
      with assms Cons show ?thesis by (simp add: rr_body_def Let_def)
    next
      case (Some i)
      let ?s2 = "?s1\<lparr>readyQueue := rest\<rparr>"
      from assms Cons Some have s': "s' = rr_turn qu x i ?s2"
        by (simp add: rr_body_def Let_def)
      have "i < length (procs ?s2)" "pid (procs ?s2 ! i) = x"
        using findIndex_Some [OF Some] by simp_all
      then have "evolve ?s2 (rr_turn qu x i ?s2)"
        by (rule rr_turn_evolve)
      then have "evolve ?s1 (rr_turn qu x i ?s2)"
        by (rule evolve_trans) (rule quiet_evolve [OF quiet_readyQueue])
      then show ?thesis
        unfolding s' by (rule evolve_trans) (rule e1)
    qed
  qed
qed

lemma fcfs_body_evolve:
  assumes "fcfs_body s = Continue s' \<or> fcfs_body s = Break s'"
  shows "evolve s s'"
proof -
  let ?s1 = "enqueueArrivals s"
  have e1: "evolve s ?s1" by (rule quiet_evolve [OF quiet_enqueueArrivals])
  show ?thesis
  proof (cases "readyQueue ?s1")
    case Nil
    with assms have "q_idle ?s1 = Continue s' \<or> q_idle ?s1 = Break s'"
      by (simp add: fcfs_body_def Let_def)
    then show ?thesis
      by (rule evolve_trans [OF q_idle_evolve e1])
  next
    case (Cons x rest)
    show ?thesis
    proof (cases "findIndex (\<lambda>p. pid p = x) (procs ?s1)")
      case None
      with assms Cons show ?thesis by (simp add: fcfs_body_def Let_def)
    next
      case (Some i)
      let ?s2 = "?s1\<lparr>readyQueue := rest\<rparr>"
      from assms Cons Some have s': "s' = fcfs_turn x i ?s2"
        by (simp add: fcfs_body_def Let_def)
      have "i < length (procs ?s2)" "pid (procs ?s2 ! i) = x"
        using findIndex_Some [OF Some] by simp_all
      then have "evolve ?s2 (fcfs_turn x i ?s2)"
        by (rule fcfs_turn_evolve)
      then have "evolve ?s1 (fcfs_turn x i ?s2)"
        by (rule evolve_trans) (rule quiet_evolve [OF quiet_readyQueue])
      then show ?thesis
        unfolding s' by (rule evolve_trans) (rule e1)
    qed
  qed
qed

lemma l_body_evolve:
  assumes "l_body cmp s = Continue s' \<or> l_body cmp s = Break s'"
  shows "evolve s s'"
proof -
  define s1 where "s1 = enqueueArrivalsL s"
  have e1: "evolve s s1"
    unfolding s1_def by (rule quiet_evolve [OF quiet_enqueueArrivalsL])
  have body: "l_body cmp s =
    (if readyList s1 = [] then l_idle s1
     else (case sort_by (\<lambda>a b. cmp (procs s1 ! a) (procs s1 ! b)) (readyList s1) of
             [] \<Rightarrow> Throw
           | i # rest \<Rightarrow> Continue (l_turn i (s1\<lparr>readyList := rest\<rparr>))))"
    by (simp only: l_body_def Let_def s1_def)
  show ?thesis
  proof (cases "readyList s1 = []")
    case True
    with assms body have "l_idle s1 = Continue s' \<or> l_idle s1 = Break s'"
      by simp
    then show ?thesis
      by (rule evolve_trans [OF l_idle_evolve e1])
  next
    case False
    show ?thesis
    proof (cases "sort_by (\<lambda>a b. cmp (procs s1 ! a) (procs s1 ! b)) (readyList s1)")
      case Nil
      with assms False body show ?thesis by simp
    next
      case (Cons i rest)
      let ?s2 = "s1\<lparr>readyList := rest\<rparr>"
      from assms False Cons body have s': "s' = l_turn i ?s2"
        by simp
      have "evolve ?s2 (l_turn i ?s2)"
        by (rule l_turn_evolve)
      then have "evolve s1 (l_turn i ?s2)"
        by (rule evolve_trans) (rule quiet_evolve [OF quiet_readyList])
      then show ?thesis
        unfolding s' by (rule evolve_trans) (rule e1)
    qed
  qed
qed

lemma mlq_body_evolve:
  assumes "mlq_body fq bq s = Continue s' \<or> mlq_body fq bq s = Break s'"
  shows "evolve s s'"
proof -
  define s1 where "s1 = enqueueArrivalsM s"
  have e1: "evolve s s1"
    unfolding s1_def by (rule quiet_evolve [OF quiet_enqueueArrivalsM])
  have body: "mlq_body fq bq s =
     (if fgQueue s1 = [] \<and> bgQueue s1 = [] then m_idle s1
      else (case fgQueue s1 of
              x # rest \<Rightarrow>
                (case findIndex (\<lambda>p. pid p = x) (procs s1) of
                   None \<Rightarrow> Throw
                 | Some i \<Rightarrow> Continue (mlq_fg_turn fq x i (s1\<lparr>fgQueue := rest\<rparr>)))
            | [] \<Rightarrow>
                (case bgQueue s1 of
                   [] \<Rightarrow> Throw
                 | x # rest \<Rightarrow>
                     (case findIndex (\<lambda>p. pid p = x) (procs s1) of
                        None \<Rightarrow> Throw
                      | Some i \<Rightarrow> Continue (mlq_bg_turn bq x i (s1\<lparr>bgQueue := rest\<rparr>))))))"
    by (simp only: mlq_body_def Let_def s1_def)
  show ?thesis
  proof (cases "fgQueue s1 = [] \<and> bgQueue s1 = []")
    case True
    with assms body have "m_idle s1 = Continue s' \<or> m_idle s1 = Break s'"
      by simp
    then show ?thesis
      by (rule evolve_trans [OF m_idle_evolve e1])
  next
    case False
    show ?thesis
    proof (cases "fgQueue s1")
      case (Cons x rest)
      show ?thesis
      proof (cases "findIndex (\<lambda>p. pid p = x) (procs s1)")
        case None
        with assms Cons body show ?thesis by simp
      next
        case (Some i)
        let ?s2 = "s1\<lparr>fgQueue := rest\<rparr>"
        from assms Cons Some body have s': "s' = mlq_fg_turn fq x i ?s2"
          by simp
        have "i < length (procs ?s2)" "pid (procs ?s2 ! i) = x"
          using findIndex_Some [OF Some] by simp_all
        then have "evolve ?s2 (mlq_fg_turn fq x i ?s2)"
          by (rule mlq_fg_turn_evolve)
        then have "evolve s1 (mlq_fg_turn fq x i ?s2)"
          by (rule evolve_trans) (rule quiet_evolve [OF quiet_fgQueue])
        then show ?thesis
          unfolding s' by (rule evolve_trans) (rule e1)
      qed
    next
      case Nil
      note fg = Nil
      show ?thesis
      proof (cases "bgQueue s1")
        case Nil
        with False fg show ?thesis by simp
      next
        case (Cons x rest)
        show ?thesis
        proof (cases "findIndex (\<lambda>p. pid p = x) (procs s1)")
          case None
          with assms Cons fg body show ?thesis by simp
        next
          case (Some i)
          let ?s2 = "s1\<lparr>bgQueue := rest\<rparr>"
          from assms Cons Some fg body have s': "s' = mlq_bg_turn bq x i ?s2"
            by simp
          have "i < length (procs ?s2)" "pid (procs ?s2 ! i) = x"
            using findIndex_Some [OF Some] by simp_all
          then have "evolve ?s2 (mlq_bg_turn bq x i ?s2)"
            by (rule mlq_bg_turn_evolve)
          then have "evolve s1 (mlq_bg_turn bq x i ?s2)"
            by (rule evolve_trans) (rule quiet_evolve [OF quiet_bgQueue])
          then show ?thesis
            unfolding s' by (rule evolve_trans) (rule e1)
        qed
      qed
    qed
  qed
qed

lemma while_iter_evolve:
  assumes "\<And>s s'. body s = Continue s' \<or> body s = Break s' \<Longrightarrow> evolve s s'"
    and "while_iter pending body iter s = Some (iter', s')"
  shows "evolve s s'"
proof (rule while_iter_rule [where I = "evolve s", OF _ evolve_refl assms(2)])
  fix t t' assume "evolve s t" "body t = Continue t' \<or> body t = Break t'"
  then show "evolve s t'"
    using assms(1) evolve_trans by blast
qed

section \<open>Invariants of a run\<close>

lemma quiet_length: "quiet s s' \<Longrightarrow> length (procs s') = length (procs s)"
  unfolding quiet_def by (metis length_map)

lemma tick_length: "tick s s' \<Longrightarrow> length (procs s') = length (procs s)"
  unfolding tick_def by (metis length_map)

lemma evolve_static:
  "evolve s s' \<Longrightarrow>
   map pid (procs s') = map pid (procs s) \<and> map burst (procs s') = map burst (procs s) \<and>
   length (procs s') = length (procs s)"
proof (induction rule: evolve.induct)
  case (evolve_refl s)
  show ?case by simp
next
  case (evolve_quiet s s1 s2)
  then show ?case using quiet_length [of s1 s2] by (simp add: quiet_def)
next
  case (evolve_tick s s1 s2)
  then show ?case using tick_length [of s1 s2] by (simp add: tick_def)
qed

lemma synced_quiet: "synced s \<Longrightarrow> quiet s s' \<Longrightarrow> synced s'"
  by (simp add: synced_def quiet_def)

lemma synced_tick:
  assumes "synced s" "tick s s'"
  shows "synced s'"
proof -
  from assms(2) obtain h e where he:
    "history s' = history s @ [h]" "trace s' = trace s @ [e]" "ev_time e = time s" "agree h e"
    and t: "time s' = time s + 1"
    unfolding tick_def by blast
  from assms(1) have s: "length (history s) = length (trace s)" "time s = int (length (trace s))"
    "\<And>k. k < length (trace s) \<Longrightarrow>
       ev_time (trace s ! k) = int k \<and> agree (history s ! k) (trace s ! k)"
    by (simp_all add: synced_def)
  have "ev_time (trace s' ! k) = int k \<and> agree (history s' ! k) (trace s' ! k)"
    if "k < length (trace s')" for k
  proof (cases "k < length (trace s)")
    case True
    then show ?thesis using s he by (simp add: nth_append)
  next
    case False
    with that he have "k = length (trace s)" by simp
    then show ?thesis using s he by (simp add: nth_append)
  qed
  then show ?thesis
    using s he t by (simp add: synced_def)
qed

lemma synced_evolve: "evolve s s' \<Longrightarrow> synced s \<Longrightarrow> synced s'"
  by (induction rule: evolve.induct) (auto intro: synced_quiet synced_tick)

lemma remaining_before_append:
  "k < length hs \<Longrightarrow> remaining_before (hs @ [h]) k = remaining_before hs k"
  by (auto simp: remaining_before_def nth_append)

lemma remaining_before_last:
  "remaining_before (hs @ [h]) (length hs) =
     (if hs = [] then map ps_burst (snap_procs h) else map ps_remaining (snap_procs (last hs)))"
  by (auto simp: remaining_before_def nth_append last_conv_nth)

lemma unit_applied_append:
  "k < length hs \<Longrightarrow> unit_applied (hs @ [h]) k = unit_applied hs k"
  by (simp add: unit_applied_def remaining_before_append nth_append)

lemma recorded_quiet: "recorded s \<Longrightarrow> quiet s s' \<Longrightarrow> recorded s'"
  by (simp add: recorded_def quiet_def)

lemma recorded_tick:
  assumes "recorded s" "tick s s'"
  shows "recorded s'"
proof -
  from assms(2) obtain h e where he:
    "history s' = history s @ [h]" "agree h e"
    "map ps_pid (snap_procs h) = map pid (procs s)"
    "map ps_burst (snap_procs h) = map burst (procs s)"
    "map ps_remaining (snap_procs h) = map remaining (procs s')"
    "unit_step (ev_cpu e) (map pid (procs s)) (map remaining (procs s))
       (map remaining (procs s'))"
    and t: "map pid (procs s') = map pid (procs s)" "map burst (procs s') = map burst (procs s)"
    unfolding tick_def by blast
  from assms(1) have r: "\<And>k. k < length (history s) \<Longrightarrow>
        map ps_pid (snap_procs (history s ! k)) = map pid (procs s) \<and>
        map ps_burst (snap_procs (history s ! k)) = map burst (procs s) \<and>
        unit_applied (history s) k"
    and l: "map remaining (procs s) =
       (if history s = [] then map burst (procs s)
        else map ps_remaining (snap_procs (last (history s))))"
    by (simp_all add: recorded_def)
  have before: "remaining_before (history s @ [h]) (length (history s)) = map remaining (procs s)"
    using l he(4) by (simp add: remaining_before_last)
  have new: "unit_applied (history s @ [h]) (length (history s))"
    using he before by (simp add: unit_applied_def agree_def)
  have "map ps_pid (snap_procs (history s' ! k)) = map pid (procs s') \<and>
        map ps_burst (snap_procs (history s' ! k)) = map burst (procs s') \<and>
        unit_applied (history s') k"
    if "k < length (history s')" for k
  proof (cases "k < length (history s)")
    case True
    then show ?thesis using r [OF True] he t by (simp add: nth_append unit_applied_append)
  next
    case False
    with that he have "k = length (history s)" by simp
    then show ?thesis using he t new by simp
  qed
  then show ?thesis
    using he by (simp add: recorded_def)
qed

lemma recorded_evolve: "evolve s s' \<Longrightarrow> recorded s \<Longrightarrow> recorded s'"
  by (induction rule: evolve.induct) (auto intro: recorded_quiet recorded_tick)

lemma worked_quiet: "worked s \<Longrightarrow> quiet s s' \<Longrightarrow> worked s'"
  using quiet_length [of s s'] by (simp add: worked_def quiet_def)

lemma worked_tick:
  assumes "worked s" "tick s s'"
  shows "worked s'"
proof -
  from assms(2) obtain h e where he:
    "trace s' = trace s @ [e]"
    "unit_step (ev_cpu e) (map pid (procs s)) (map remaining (procs s))
       (map remaining (procs s'))"
    and t: "map pid (procs s') = map pid (procs s)" "map burst (procs s') = map burst (procs s)"
    unfolding tick_def by blast
  have len: "length (procs s') = length (procs s)"
    by (rule tick_length [OF assms(2)])
  from assms(1) have b: "list_all2 (\<le>) (map remaining (procs s)) (map burst (procs s))"
    and c: "\<And>e x. e \<in> set (trace s) \<Longrightarrow> ev_cpu e = Some x \<Longrightarrow>
        (\<exists>k < length (procs s). map pid (procs s) ! k = x \<and> 0 < map burst (procs s) ! k)"
    by (auto simp: worked_def)
  have b': "list_all2 (\<le>) (map remaining (procs s')) (map burst (procs s'))"
  proof (cases "ev_cpu e")
    case None
    with he(2) b t show ?thesis by (simp add: unit_step_def)
  next
    case (Some x)
    with he(2) obtain i where i: "i < length (procs s)"
      "map remaining (procs s') = (map remaining (procs s))[i := map remaining (procs s) ! i - 1]"
      by (auto simp: unit_step_def)
    have "list_all2 (\<le>) ((map remaining (procs s))[i := map remaining (procs s) ! i - 1])
            (map burst (procs s))"
      using b i(1) by (auto simp: list_all2_conv_all_nth nth_list_update)
    with i t show ?thesis by simp
  qed
  have c': "\<exists>k < length (procs s'). map pid (procs s') ! k = x \<and> 0 < map burst (procs s') ! k"
    if "e' \<in> set (trace s')" "ev_cpu e' = Some x" for e' x
  proof (cases "e' \<in> set (trace s)")
    case True
    from c [OF True that(2)] show ?thesis using t len by simp
  next
    case False
    with that he have "e' = e" by simp
    with that he(2) obtain i where i: "i < length (procs s)" "map pid (procs s) ! i = x"
      "0 < map remaining (procs s) ! i"
      by (auto simp: unit_step_def)
    from b i have "map remaining (procs s) ! i \<le> map burst (procs s) ! i"
      by (simp add: list_all2_conv_all_nth)
    with i have "i < length (procs s') \<and> map pid (procs s') ! i = x \<and> 0 < map burst (procs s') ! i"
      using t len by simp
    then show ?thesis by blast
  qed
  show ?thesis
    unfolding worked_def using b' c' by blast
qed

lemma worked_evolve: "evolve s s' \<Longrightarrow> worked s \<Longrightarrow> worked s'"
  by (induction rule: evolve.induct) (auto intro: worked_quiet worked_tick)

lemma fresh_synced: "fresh s \<Longrightarrow> synced s"
  by (simp add: fresh_def synced_def)

lemma fresh_recorded: "fresh s \<Longrightarrow> recorded s"
  by (simp add: fresh_def recorded_def)

lemma fresh_worked: "fresh s \<Longrightarrow> worked s"
  by (simp add: fresh_def worked_def list_all2_conv_all_nth)

section \<open>Sorting and the initial states\<close>

lemma set_insert_by [simp]: "set (insert_by cmp x xs) = insert x (set xs)"
  by (induction xs) auto

lemma length_insert_by [simp]: "length (insert_by cmp x xs) = Suc (length xs)"
  by (induction xs) auto

lemma distinct_map_insert_by [simp]:
  "distinct (map f (insert_by cmp x xs)) \<longleftrightarrow> f x \<notin> f ` set xs \<and> distinct (map f xs)"
  by (induction xs) auto

lemma sort_by_Cons: "sort_by cmp (x # xs) = insert_by cmp x (sort_by cmp xs)"
  by (simp add: sort_by_def)

lemma sort_by_Nil [simp]: "sort_by cmp [] = []"
  by (simp add: sort_by_def)

lemma set_sort_by [simp]: "set (sort_by cmp xs) = set xs"
  by (induction xs) (simp_all add: sort_by_Cons)

lemma length_sort_by [simp]: "length (sort_by cmp xs) = length xs"
  by (induction xs) (simp_all add: sort_by_Cons)

lemma distinct_map_sort_by [simp]: "distinct (map f (sort_by cmp xs)) = distinct (map f xs)"
  by (induction xs) (simp_all add: sort_by_Cons)

lemma sort_by_eq_Nil [simp]: "sort_by cmp xs = [] \<longleftrightarrow> xs = []"
  using length_sort_by [of cmp xs] by (metis length_0_conv)

lemma admit_pairs [simp]:
  "map (\<lambda>p. (pid p, burst p)) (admit t ps) = map (\<lambda>p. (pid p, burst p)) ps"
  by (simp add: admit_def)

lemma spawn_sel [simp]:
  "pid (spawn d) = pid d" "burst (spawn d) = burst d" "remaining (spawn d) = burst d"
  "arrival (spawn d) = arrival d" "priority (spawn d) = priority d"
  "enqueued (spawn d) = False" "startTime (spawn d) = None" "completionTime (spawn d) = None"
  by (simp_all add: spawn_def)

lemma loadedI:
  assumes "time s = 0" "history s = []" "trace s = []" "procs s = admit 0 ps"
    and "set ps = spawn ` set ds" "length ps = length ds"
    and "distinct (map pid ps) = distinct (map pid ds)"
  shows "loaded ds s"
proof -
  have "map remaining ps = map burst ps"
    using assms(5) by (intro map_cong) auto
  moreover have "(\<lambda>p. (pid p, burst p)) ` set ps = (\<lambda>d. (pid d, burst d)) ` set ds"
    unfolding assms(5) by (simp add: image_image)
  ultimately show ?thesis
    using assms by (simp add: loaded_def fresh_def)
qed

lemma q_init_loaded: "loaded ds (q_init ds)"
  by (rule loadedI [where ps = "sort_by (\<lambda>a b. arrival a - arrival b) (map spawn ds)"])
     (simp_all add: q_init_def comp_def)

lemma l_init_loaded: "loaded ds (l_init ds)"
  by (rule loadedI [where ps = "map spawn ds"]) (simp_all add: l_init_def comp_def)

lemma m_init_loaded: "loaded ds (m_init ds)"
  by (rule loadedI [where ps = "sort_by (\<lambda>a b. arrival a - arrival b) (map spawn ds)"])
     (simp_all add: m_init_def comp_def)

lemma outcome_Inr:
  "outcome w = Inr r \<Longrightarrow> \<exists>iter s. w = Some (iter, s) \<and> r = finish s"
  by (auto simp: outcome_def split: option.splits)

lemma run_result:
  assumes "outcome (while_iter pending body 0 s0) = Inr r"
    and "\<And>s s'. body s = Continue s' \<or> body s = Break s' \<Longrightarrow> evolve s s'"
  obtains s where "evolve s0 s" "r = finish s"
proof -
  from outcome_Inr [OF assms(1)] obtain iter s
    where w: "while_iter pending body 0 s0 = Some (iter, s)" and r: "r = finish s"
    by blast
  have "evolve s0 s"
    by (rule while_iter_evolve [OF assms(2) w])
  with r that show ?thesis by blast
qed

lemma simulateRR_result:
  assumes "simulateRR ds qu = Inr r"
  obtains s where "evolve (q_init ds) s" "r = finish s"
  by (rule run_result [OF assms [unfolded simulateRR_def] rr_body_evolve])

lemma simulateFCFS_result:
  assumes "simulateFCFS ds = Inr r"
  obtains s where "evolve (q_init ds) s" "r = finish s"
  by (rule run_result [OF assms [unfolded simulateFCFS_def] fcfs_body_evolve])

lemma simulateSJF_result:
  assumes "simulateSJF ds = Inr r"
  obtains s where "evolve (l_init ds) s" "r = finish s"
  by (rule run_result [OF assms [unfolded simulateSJF_def] l_body_evolve])

lemma simulatePriority_result:
  assumes "simulatePriority ds = Inr r"
  obtains s where "evolve (l_init ds) s" "r = finish s"
  by (rule run_result [OF assms [unfolded simulatePriority_def] l_body_evolve])

lemma simulateMLQ_result:
  assumes "simulateMLQ ds fq bq = Inr r"
  obtains s where "evolve (m_init ds) s" "r = finish s"
  by (rule run_result [OF assms [unfolded simulateMLQ_def] mlq_body_evolve])

text \<open>Whatever the tag, a result of \<open>simulate\<close> is the final state of a run that started in
  a loaded state and evolved by quiet changes and ticks.\<close>

lemma simulate_result:
  assumes "simulate algorithm ps opts = Inr r"
  obtains (Q) s0 s :: qstate where
      "loaded (map normalize ps) s0" "evolve s0 s" "r = finish s"
  | (L) s0 s :: lstate where
      "loaded (map normalize ps) s0" "evolve s0 s" "r = finish s"
  | (M) s0 s :: mstate where
      "loaded (map normalize ps) s0" "evolve s0 s" "r = finish s"
proof -
  let ?ds = "map normalize ps"
  consider
      (rr) qu where "simulateRR ?ds qu = Inr r"
    | (fcfs) "simulateFCFS ?ds = Inr r"
    | (sjf) "simulateSJF ?ds = Inr r"
    | (prio) "simulatePriority ?ds = Inr r"
    | (mlq) fq bq where "simulateMLQ ?ds fq bq = Inr r"
    using assms unfolding simulate_def Let_def by (auto split: if_splits)
  then show ?thesis
  proof cases
    case rr
    then show ?thesis by (rule simulateRR_result) (rule Q [OF q_init_loaded])
  next
    case fcfs
    then show ?thesis by (rule simulateFCFS_result) (rule Q [OF q_init_loaded])
  next
    case sjf
    then show ?thesis by (rule simulateSJF_result) (rule L [OF l_init_loaded])
  next
    case prio
    then show ?thesis by (rule simulatePriority_result) (rule L [OF l_init_loaded])
  next
    case mlq
    then show ?thesis by (rule simulateMLQ_result) (rule M [OF m_init_loaded])
  qed
qed

section \<open>Rules for preserved properties\<close>

lemma gentle_dec: "gentle (\<lambda>p. p\<lparr>remaining := remaining p - 1\<rparr>)"
  by (simp add: gentle_def)

lemma gentle_start: "gentle (\<lambda>p. p\<lparr>startTime := t\<rparr>)"
  by (simp add: gentle_def)

lemma preserved_enq: "preserved enq P \<Longrightarrow> P s \<Longrightarrow> P (enq s)"
  by (simp add: preserved_def)

lemma preserved_emit: "preserved enq P \<Longrightarrow> P s \<Longrightarrow> P (emit c r e s)"
  by (simp add: preserved_def)

lemma preserved_upd: "preserved enq P \<Longrightarrow> gentle f \<Longrightarrow> P s \<Longrightarrow> P (upd_proc i f s)"
  by (simp add: preserved_def)

lemma preserved_mark_start:
  assumes "preserved enq P" "P s"
  shows "P (mark_start i s)"
proof (cases "startTime (procs s ! i) = None")
  case True
  have "P (upd_proc i (\<lambda>p. p\<lparr>startTime := Some (time s)\<rparr>) s)"
    using assms(1) gentle_start assms(2) by (rule preserved_upd)
  with True show ?thesis by (simp add: mark_start_def)
next
  case False
  then have "mark_start i s = s" by (auto simp: mark_start_def)
  with assms(2) show ?thesis by simp
qed

lemma preserved_run_unit:
  assumes "preserved enq P" "P s"
  shows "P (run_unit enq rdy i x s)"
proof -
  let ?s1 = "upd_proc i (\<lambda>p. p\<lparr>remaining := remaining p - 1\<rparr>) s"
  have "P ?s1"
    using assms(1) gentle_dec assms(2) by (rule preserved_upd)
  with assms(1) have "P (emit (Some x) (rdy ?s1) (exec_label x) ?s1)"
    by (rule preserved_emit)
  with assms(1) have "P (enq (emit (Some x) (rdy ?s1) (exec_label x) ?s1))"
    by (rule preserved_enq)
  then show ?thesis by (simp add: run_unit_def Let_def)
qed

lemma preserved_run_for: "preserved enq P \<Longrightarrow> P s \<Longrightarrow> P (run_for enq rdy i x n s)"
  by (rule run_for_pres [where P = P and enq = enq]) (rule preserved_run_unit [where enq = enq])

lemma preserved_idle_until: "preserved enq P \<Longrightarrow> P s \<Longrightarrow> P (idle_until rdy j s)"
  by (rule idle_until_pres [where P = P]) (rule preserved_emit [where enq = enq and P = P])

lemma preserved_fcfs_run:
  "preserved enqueueArrivals P \<Longrightarrow> P s \<Longrightarrow> P (fcfs_run i x s)"
proof (induction i x s rule: fcfs_run.induct)
  case (1 i x s)
  show ?case
  proof (cases "i < length (procs s) \<and> 0 < remaining (procs s ! i)")
    case False
    then have "fcfs_run i x s = s" by (subst fcfs_run.simps) auto
    with "1.prems" show ?thesis by simp
  next
    case True
    let ?s1 = "run_unit enqueueArrivals readyQueue i x s"
    have "P ?s1" by (rule preserved_run_unit [OF "1.prems"])
    then have "P (fcfs_run i x ?s1)" by (rule "1.IH" [OF True "1.prems"(1)])
    moreover have "fcfs_run i x s = fcfs_run i x ?s1"
      using True by (subst fcfs_run.simps) simp
    ultimately show ?thesis by simp
  qed
qed

lemma preserved_l_run:
  "preserved enqueueArrivalsL P \<Longrightarrow> P s \<Longrightarrow> P (l_run i x s)"
proof (induction i x s rule: l_run.induct)
  case (1 i x s)
  show ?case
  proof (cases "i < length (procs s) \<and> 0 < remaining (procs s ! i)")
    case False
    then have "l_run i x s = s" by (subst l_run.simps) auto
    with "1.prems" show ?thesis by simp
  next
    case True
    let ?s1 = "run_unit enqueueArrivalsL ready_pids i x s"
    have "P ?s1" by (rule preserved_run_unit [OF "1.prems"])
    then have "P (l_run i x ?s1)" by (rule "1.IH" [OF True "1.prems"(1)])
    moreover have "l_run i x s = l_run i x ?s1"
      using True by (subst l_run.simps) simp
    ultimately show ?thesis by simp
  qed
qed

lemma preserved_mlq_run:
  "preserved enqueueArrivalsM P \<Longrightarrow> P s \<Longrightarrow> P (mlq_run i x s)"
proof (induction i x s rule: mlq_run.induct)
  case (1 i x s)
  show ?case
  proof (cases "i < length (procs s) \<and> 0 < remaining (procs s ! i)")
    case False
    then have "mlq_run i x s = s" by (subst mlq_run.simps) auto
    with "1.prems" show ?thesis by simp
  next
    case True
    let ?s1 = "run_unit enqueueArrivalsM m_ready i x s"
    have "P ?s1" by (rule preserved_run_unit [OF "1.prems"])
    then have "P (mlq_run i x ?s1)" by (rule "1.IH" [OF True "1.prems"(1)])
    moreover have "mlq_run i x s = mlq_run i x ?s1"
      using True by (subst mlq_run.simps) simp
    ultimately show ?thesis by simp
  qed
qed

text \<open>The while loops stop with no work left for the process they ran.\<close>

lemma fcfs_run_exit: "i < length (procs s) \<Longrightarrow> remaining (procs (fcfs_run i x s) ! i) \<le> 0 \<and> length (procs (fcfs_run i x s)) = length (procs s)"
proof (induction i x s rule: fcfs_run.induct)
  case (1 i x s)
  show ?case
  proof (cases "0 < remaining (procs s ! i)")
    case False
    with "1.prems" have "fcfs_run i x s = s" by (subst fcfs_run.simps) auto
    with False show ?thesis by simp
  next
    case True
    let ?s1 = "run_unit enqueueArrivals readyQueue i x s"
    have len: "length (procs ?s1) = length (procs s)" by (simp add: run_unit_length)
    have "fcfs_run i x s = fcfs_run i x ?s1"
      using True "1.prems" by (subst fcfs_run.simps) simp
    moreover have "remaining (procs (fcfs_run i x ?s1) ! i) \<le> 0 \<and>
        length (procs (fcfs_run i x ?s1)) = length (procs ?s1)"
      using True "1.prems" len by (intro "1.IH") simp_all
    ultimately show ?thesis using len by simp
  qed
qed

lemma mlq_run_exit: "i < length (procs s) \<Longrightarrow> remaining (procs (mlq_run i x s) ! i) \<le> 0 \<and> length (procs (mlq_run i x s)) = length (procs s)"
proof (induction i x s rule: mlq_run.induct)
  case (1 i x s)
  show ?case
  proof (cases "0 < remaining (procs s ! i)")
    case False
    with "1.prems" have "mlq_run i x s = s" by (subst mlq_run.simps) auto
    with False show ?thesis by simp
  next
    case True
    let ?s1 = "run_unit enqueueArrivalsM m_ready i x s"
    have len: "length (procs ?s1) = length (procs s)" by (simp add: run_unit_length)
    have "mlq_run i x s = mlq_run i x ?s1"
      using True "1.prems" by (subst mlq_run.simps) simp
    moreover have "remaining (procs (mlq_run i x ?s1) ! i) \<le> 0 \<and>
        length (procs (mlq_run i x ?s1)) = length (procs ?s1)"
      using True "1.prems" len by (intro "1.IH") simp_all
    ultimately show ?thesis using len by simp
  qed
qed

section \<open>Rules for the loop bodies\<close>

lemma queue_sel [simp]:
  "readyQueue (emit c r e s) = readyQueue s"
  "readyQueue (upd_proc i f s) = readyQueue s"
  "readyList (emit c r e l) = readyList l"
  "readyList (upd_proc i f l) = readyList l"
  "fgQueue (emit c r e m) = fgQueue m"
  "fgQueue (upd_proc i f m) = fgQueue m"
  "bgQueue (emit c r e m) = bgQueue m"
  "bgQueue (upd_proc i f m) = bgQueue m"
  by (simp_all add: emit_def upd_proc_def)

lemma queue_mark [simp]:
  "readyQueue (mark_start i s) = readyQueue s"
  "readyQueue (mark_done i s) = readyQueue s"
  "readyList (mark_start i l) = readyList l"
  "readyList (mark_done i l) = readyList l"
  "fgQueue (mark_start i m) = fgQueue m"
  "fgQueue (mark_done i m) = fgQueue m"
  "bgQueue (mark_start i m) = bgQueue m"
  "bgQueue (mark_done i m) = bgQueue m"
  by (simp_all add: mark_start_def mark_done_def)

lemma gentle_maps:
  assumes "gentle f"
  shows "map pid (xs[i := f (xs ! i)]) = map pid xs"
    and "map burst (xs[i := f (xs ! i)]) = map burst xs"
    and "map arrival (xs[i := f (xs ! i)]) = map arrival xs"
    and "map priority (xs[i := f (xs ! i)]) = map priority xs"
    and "map enqueued (xs[i := f (xs ! i)]) = map enqueued xs"
  using assms by (simp_all add: gentle_def map_upd_same)

text \<open>A slice keeps the process list's shape, so position \<open>i\<close> still holds the process
  \<open>x\<close> after it.\<close>

lemma evolve_nth_pid:
  "evolve s s' \<Longrightarrow> i < length (procs s) \<Longrightarrow>
   i < length (procs s') \<and> pid (procs s' ! i) = pid (procs s ! i)"
  using evolve_static [of s s'] map_eq_nthD [of pid "procs s'" "procs s" i] by simp

lemma rr_turn_rule:
  assumes pm: "preserved enqueueArrivals M"
    and push: "\<And>s. M s \<Longrightarrow> i < length (procs s) \<Longrightarrow> pid (procs s ! i) = x \<Longrightarrow>
        F (s\<lparr>readyQueue := readyQueue s @ [x]\<rparr>)"
    and fin: "\<And>s. M s \<Longrightarrow> i < length (procs s) \<Longrightarrow> pid (procs s ! i) = x \<Longrightarrow>
        remaining (procs s ! i) \<le> 0 \<Longrightarrow> F (mark_done i s)"
    and "M s" "i < length (procs s)" "pid (procs s ! i) = x"
  shows "F (rr_turn qu x i s)"
proof -
  let ?s1 = "mark_start i s"
  let ?s2 = "run_for enqueueArrivals readyQueue i x (nat (min qu (remaining (procs ?s1 ! i)))) ?s1"
  have m2: "M ?s2"
    by (intro preserved_run_for [OF pm] preserved_mark_start [OF pm] assms)
  have "evolve ?s1 ?s2"
    using assms(5,6) by (intro slice_evolve quiet_enqueueArrivals) (simp_all add: mark_start_nth)
  then have "evolve s ?s2"
    by (rule evolve_trans) (rule quiet_evolve [OF quiet_mark_start])
  from evolve_nth_pid [OF this assms(5)] assms(6)
  have i2: "i < length (procs ?s2)" "pid (procs ?s2 ! i) = x" by simp_all
  show ?thesis
  proof (cases "remaining (procs ?s2 ! i) = 0")
    case True
    then have "rr_turn qu x i s = mark_done i ?s2"
      by (simp add: rr_turn_def Let_def)
    moreover have "F (mark_done i ?s2)"
      using m2 i2 True by (intro fin) simp_all
    ultimately show ?thesis by simp
  next
    case False
    then have "rr_turn qu x i s = ?s2\<lparr>readyQueue := readyQueue ?s2 @ [x]\<rparr>"
      by (simp add: rr_turn_def Let_def)
    moreover have "F (?s2\<lparr>readyQueue := readyQueue ?s2 @ [x]\<rparr>)"
      using m2 i2 by (rule push)
    ultimately show ?thesis by simp
  qed
qed

lemma fcfs_turn_rule:
  assumes pm: "preserved enqueueArrivals M"
    and fin: "\<And>s. M s \<Longrightarrow> i < length (procs s) \<Longrightarrow> pid (procs s ! i) = x \<Longrightarrow>
        remaining (procs s ! i) \<le> 0 \<Longrightarrow> F (mark_done i s)"
    and "M s" "i < length (procs s)" "pid (procs s ! i) = x"
  shows "F (fcfs_turn x i s)"
proof -
  let ?s1 = "mark_start i s"
  let ?s2 = "fcfs_run i x ?s1"
  have m2: "M ?s2"
    by (intro preserved_fcfs_run [OF pm] preserved_mark_start [OF pm] assms)
  have "evolve ?s1 ?s2"
    using assms(4,5) by (intro fcfs_run_evolve) (simp add: mark_start_nth)
  then have "evolve s ?s2"
    by (rule evolve_trans) (rule quiet_evolve [OF quiet_mark_start])
  from evolve_nth_pid [OF this assms(4)] assms(5)
  have i2: "i < length (procs ?s2)" "pid (procs ?s2 ! i) = x" by simp_all
  have "remaining (procs ?s2 ! i) \<le> 0"
    using fcfs_run_exit [of i ?s1 x] assms(4) by simp
  with m2 i2 have "F (mark_done i ?s2)" by (intro fin)
  then show ?thesis by (simp add: fcfs_turn_def)
qed

lemma q_idle_rule:
  assumes "preserved enqueueArrivals F" "F s" "q_idle s = Continue s' \<or> q_idle s = Break s'"
  shows "F s'"
proof (cases "find (\<lambda>p. \<not> enqueued p \<and> 0 < remaining p) (procs s)")
  case None
  with assms show ?thesis by (simp add: q_idle_def)
next
  case (Some nxt)
  with assms(3) have "s' = enqueueArrivals (idle_until (readyQueue s) (arrival nxt) s)"
    by (simp add: q_idle_def)
  then show ?thesis
    using assms(1,2) by (simp add: preserved_enq preserved_idle_until)
qed

lemma m_idle_rule:
  assumes "preserved enqueueArrivalsM F" "F s" "m_idle s = Continue s' \<or> m_idle s = Break s'"
  shows "F s'"
proof (cases "find (\<lambda>p. \<not> enqueued p \<and> 0 < remaining p) (procs s)")
  case None
  with assms show ?thesis by (simp add: m_idle_def)
next
  case (Some nxt)
  with assms(3) have "s' = enqueueArrivalsM (idle_until [] (arrival nxt) s)"
    by (simp add: m_idle_def)
  then show ?thesis
    using assms(1,2) by (simp add: preserved_enq preserved_idle_until)
qed

lemma rr_body_cases:
  obtains (idle) s1 where "s1 = enqueueArrivals s" "readyQueue s1 = []"
      "rr_body qu s = q_idle s1"
  | (throw) s1 x rest where "s1 = enqueueArrivals s" "readyQueue s1 = x # rest"
      "findIndex (\<lambda>p. pid p = x) (procs s1) = None" "rr_body qu s = Throw"
  | (turn) s1 x rest i where "s1 = enqueueArrivals s" "readyQueue s1 = x # rest"
      "findIndex (\<lambda>p. pid p = x) (procs s1) = Some i"
      "rr_body qu s = Continue (rr_turn qu x i (s1\<lparr>readyQueue := rest\<rparr>))"
proof -
  define s1 where "s1 = enqueueArrivals s"
  have body: "rr_body qu s =
     (case readyQueue s1 of
        [] \<Rightarrow> q_idle s1
      | x # rest \<Rightarrow>
          (case findIndex (\<lambda>p. pid p = x) (procs s1) of
             None \<Rightarrow> Throw
           | Some i \<Rightarrow> Continue (rr_turn qu x i (s1\<lparr>readyQueue := rest\<rparr>))))"
    by (simp only: rr_body_def Let_def s1_def)
  show ?thesis
  proof (cases "readyQueue s1")
    case Nil
    with body show ?thesis by (intro idle [of s1] s1_def) simp_all
  next
    case (Cons x rest)
    show ?thesis
    proof (cases "findIndex (\<lambda>p. pid p = x) (procs s1)")
      case None
      with body Cons show ?thesis by (intro throw [of s1 x rest] s1_def) simp_all
    next
      case (Some i)
      with body Cons show ?thesis by (intro turn [of s1 x rest i] s1_def) simp_all
    qed
  qed
qed

lemma fcfs_body_cases:
  obtains (idle) s1 where "s1 = enqueueArrivals s" "readyQueue s1 = []"
      "fcfs_body s = q_idle s1"
  | (throw) s1 x rest where "s1 = enqueueArrivals s" "readyQueue s1 = x # rest"
      "findIndex (\<lambda>p. pid p = x) (procs s1) = None" "fcfs_body s = Throw"
  | (turn) s1 x rest i where "s1 = enqueueArrivals s" "readyQueue s1 = x # rest"
      "findIndex (\<lambda>p. pid p = x) (procs s1) = Some i"
      "fcfs_body s = Continue (fcfs_turn x i (s1\<lparr>readyQueue := rest\<rparr>))"
proof -
  define s1 where "s1 = enqueueArrivals s"
  have body: "fcfs_body s =
     (case readyQueue s1 of
        [] \<Rightarrow> q_idle s1
      | x # rest \<Rightarrow>
          (case findIndex (\<lambda>p. pid p = x) (procs s1) of
             None \<Rightarrow> Throw
           | Some i \<Rightarrow> Continue (fcfs_turn x i (s1\<lparr>readyQueue := rest\<rparr>))))"
    by (simp only: fcfs_body_def Let_def s1_def)
  show ?thesis
  proof (cases "readyQueue s1")
    case Nil
    with body show ?thesis by (intro idle [of s1] s1_def) simp_all
  next
    case (Cons x rest)
    show ?thesis
    proof (cases "findIndex (\<lambda>p. pid p = x) (procs s1)")
      case None
      with body Cons show ?thesis by (intro throw [of s1 x rest] s1_def) simp_all
    next
      case (Some i)
      with body Cons show ?thesis by (intro turn [of s1 x rest i] s1_def) simp_all
    qed
  qed
qed

lemma mlq_body_cases:
  obtains (idle) s1 where "s1 = enqueueArrivalsM s" "fgQueue s1 = []" "bgQueue s1 = []"
      "mlq_body fq bq s = m_idle s1"
  | (throw) s1 where "s1 = enqueueArrivalsM s" "mlq_body fq bq s = Throw"
      "\<exists>x \<in> set (fgQueue s1) \<union> set (bgQueue s1).
         findIndex (\<lambda>p. pid p = x) (procs s1) = None"
  | (fg) s1 x rest i where "s1 = enqueueArrivalsM s" "fgQueue s1 = x # rest"
      "findIndex (\<lambda>p. pid p = x) (procs s1) = Some i"
      "mlq_body fq bq s = Continue (mlq_fg_turn fq x i (s1\<lparr>fgQueue := rest\<rparr>))"
  | (bg) s1 x rest i where "s1 = enqueueArrivalsM s" "fgQueue s1 = []" "bgQueue s1 = x # rest"
      "findIndex (\<lambda>p. pid p = x) (procs s1) = Some i"
      "mlq_body fq bq s = Continue (mlq_bg_turn bq x i (s1\<lparr>bgQueue := rest\<rparr>))"
proof -
  define s1 where "s1 = enqueueArrivalsM s"
  have body: "mlq_body fq bq s =
     (if fgQueue s1 = [] \<and> bgQueue s1 = [] then m_idle s1
      else (case fgQueue s1 of
              x # rest \<Rightarrow>
                (case findIndex (\<lambda>p. pid p = x) (procs s1) of
                   None \<Rightarrow> Throw
                 | Some i \<Rightarrow> Continue (mlq_fg_turn fq x i (s1\<lparr>fgQueue := rest\<rparr>)))
            | [] \<Rightarrow>
                (case bgQueue s1 of
                   [] \<Rightarrow> Throw
                 | x # rest \<Rightarrow>
                     (case findIndex (\<lambda>p. pid p = x) (procs s1) of
                        None \<Rightarrow> Throw
                      | Some i \<Rightarrow> Continue (mlq_bg_turn bq x i (s1\<lparr>bgQueue := rest\<rparr>))))))"
    by (simp only: mlq_body_def Let_def s1_def)
  show ?thesis
  proof (cases "fgQueue s1")
    case (Cons x rest)
    show ?thesis
    proof (cases "findIndex (\<lambda>p. pid p = x) (procs s1)")
      case None
      with body Cons show ?thesis by (intro throw [of s1] s1_def) auto
    next
      case (Some i)
      with body Cons show ?thesis by (intro fg [of s1 x rest i] s1_def) simp_all
    qed
  next
    case Nil
    note f = Nil
    show ?thesis
    proof (cases "bgQueue s1")
      case Nil
      with body f show ?thesis by (intro idle [of s1] s1_def) simp_all
    next
      case (Cons x rest)
      show ?thesis
      proof (cases "findIndex (\<lambda>p. pid p = x) (procs s1)")
        case None
        with body Cons f show ?thesis by (intro throw [of s1] s1_def) auto
      next
        case (Some i)
        with body Cons f show ?thesis by (intro bg [of s1 x rest i] s1_def) simp_all
      qed
    qed
  qed
qed

lemma rr_body_rule:
  assumes pf: "preserved enqueueArrivals F" and pm: "\<And>x. preserved enqueueArrivals (M x)"
    and pop: "\<And>s x rest i. F s \<Longrightarrow> readyQueue s = x # rest \<Longrightarrow>
        findIndex (\<lambda>p. pid p = x) (procs s) = Some i \<Longrightarrow> M x (s\<lparr>readyQueue := rest\<rparr>)"
    and push: "\<And>s x i. M x s \<Longrightarrow> i < length (procs s) \<Longrightarrow> pid (procs s ! i) = x \<Longrightarrow>
        F (s\<lparr>readyQueue := readyQueue s @ [x]\<rparr>)"
    and fin: "\<And>s x i. M x s \<Longrightarrow> i < length (procs s) \<Longrightarrow> pid (procs s ! i) = x \<Longrightarrow>
        remaining (procs s ! i) \<le> 0 \<Longrightarrow> F (mark_done i s)"
    and "F s" and "rr_body qu s = Continue s' \<or> rr_body qu s = Break s'"
  shows "F s'"
proof (cases rule: rr_body_cases [where s = s and qu = qu])
  case (idle s1)
  have f1: "F s1" unfolding idle(1) by (rule preserved_enq [OF pf]) fact
  from idle assms(7) have "q_idle s1 = Continue s' \<or> q_idle s1 = Break s'" by simp
  with pf f1 show ?thesis by (rule q_idle_rule)
next
  case (throw s1 x rest)
  with assms(7) show ?thesis by simp
next
  case (turn s1 x rest i)
  have f1: "F s1" unfolding turn(1) by (rule preserved_enq [OF pf]) fact
  let ?s2 = "s1\<lparr>readyQueue := rest\<rparr>"
  have "M x ?s2" using f1 turn(2,3) by (rule pop)
  moreover have "i < length (procs ?s2)" "pid (procs ?s2 ! i) = x"
    using findIndex_Some [OF turn(3)] by simp_all
  ultimately have "F (rr_turn qu x i ?s2)"
    by (intro rr_turn_rule [where M = "M x" and F = F] pm push fin)
  with turn(4) assms(7) show ?thesis by simp
qed

lemma fcfs_body_rule:
  assumes pf: "preserved enqueueArrivals F" and pm: "\<And>x. preserved enqueueArrivals (M x)"
    and pop: "\<And>s x rest i. F s \<Longrightarrow> readyQueue s = x # rest \<Longrightarrow>
        findIndex (\<lambda>p. pid p = x) (procs s) = Some i \<Longrightarrow> M x (s\<lparr>readyQueue := rest\<rparr>)"
    and fin: "\<And>s x i. M x s \<Longrightarrow> i < length (procs s) \<Longrightarrow> pid (procs s ! i) = x \<Longrightarrow>
        remaining (procs s ! i) \<le> 0 \<Longrightarrow> F (mark_done i s)"
    and "F s" and "fcfs_body s = Continue s' \<or> fcfs_body s = Break s'"
  shows "F s'"
proof (cases rule: fcfs_body_cases [where s = s])
  case (idle s1)
  have f1: "F s1" unfolding idle(1) by (rule preserved_enq [OF pf]) fact
  from idle assms(6) have "q_idle s1 = Continue s' \<or> q_idle s1 = Break s'" by simp
  with pf f1 show ?thesis by (rule q_idle_rule)
next
  case (throw s1 x rest)
  with assms(6) show ?thesis by simp
next
  case (turn s1 x rest i)
  have f1: "F s1" unfolding turn(1) by (rule preserved_enq [OF pf]) fact
  let ?s2 = "s1\<lparr>readyQueue := rest\<rparr>"
  have "M x ?s2" using f1 turn(2,3) by (rule pop)
  moreover have "i < length (procs ?s2)" "pid (procs ?s2 ! i) = x"
    using findIndex_Some [OF turn(3)] by simp_all
  ultimately have "F (fcfs_turn x i ?s2)"
    by (intro fcfs_turn_rule [where M = "M x" and F = F] pm fin)
  with turn(4) assms(6) show ?thesis by simp
qed

lemma mlq_fg_turn_rule:
  assumes pm: "preserved enqueueArrivalsM M"
    and push: "\<And>s. M s \<Longrightarrow> i < length (procs s) \<Longrightarrow> pid (procs s ! i) = x \<Longrightarrow>
        F (s\<lparr>fgQueue := fgQueue s @ [x]\<rparr>)"
    and fin: "\<And>s. M s \<Longrightarrow> i < length (procs s) \<Longrightarrow> pid (procs s ! i) = x \<Longrightarrow>
        remaining (procs s ! i) \<le> 0 \<Longrightarrow> F (mark_done i s)"
    and "M s" "i < length (procs s)" "pid (procs s ! i) = x"
  shows "F (mlq_fg_turn qu x i s)"
proof -
  let ?s1 = "mark_start i s"
  let ?s2 = "run_for enqueueArrivalsM m_ready i x (nat (min qu (remaining (procs ?s1 ! i)))) ?s1"
  have m2: "M ?s2"
    by (intro preserved_run_for [OF pm] preserved_mark_start [OF pm] assms)
  have "evolve ?s1 ?s2"
    using assms(5,6) by (intro slice_evolve quiet_enqueueArrivalsM) (simp_all add: mark_start_nth)
  then have "evolve s ?s2"
    by (rule evolve_trans) (rule quiet_evolve [OF quiet_mark_start])
  from evolve_nth_pid [OF this assms(5)] assms(6)
  have i2: "i < length (procs ?s2)" "pid (procs ?s2 ! i) = x" by simp_all
  show ?thesis
  proof (cases "remaining (procs ?s2 ! i) = 0")
    case True
    then have "mlq_fg_turn qu x i s = mark_done i ?s2"
      by (simp add: mlq_fg_turn_def Let_def)
    moreover have "F (mark_done i ?s2)"
      using m2 i2 True by (intro fin) simp_all
    ultimately show ?thesis by simp
  next
    case False
    then have "mlq_fg_turn qu x i s = ?s2\<lparr>fgQueue := fgQueue ?s2 @ [x]\<rparr>"
      by (simp add: mlq_fg_turn_def Let_def)
    moreover have "F (?s2\<lparr>fgQueue := fgQueue ?s2 @ [x]\<rparr>)"
      using m2 i2 by (rule push)
    ultimately show ?thesis by simp
  qed
qed

lemma mlq_bg_turn_rule:
  assumes pm: "preserved enqueueArrivalsM M"
    and push: "\<And>s. M s \<Longrightarrow> i < length (procs s) \<Longrightarrow> pid (procs s ! i) = x \<Longrightarrow>
        F (s\<lparr>bgQueue := bgQueue s @ [x]\<rparr>)"
    and fin: "\<And>s. M s \<Longrightarrow> i < length (procs s) \<Longrightarrow> pid (procs s ! i) = x \<Longrightarrow>
        remaining (procs s ! i) \<le> 0 \<Longrightarrow> F (mark_done i s)"
    and "M s" "i < length (procs s)" "pid (procs s ! i) = x"
  shows "F (mlq_bg_turn bq x i s)"
proof (cases bq)
  case None
  let ?s1 = "mark_start i s"
  let ?s2 = "mlq_run i x ?s1"
  have m2: "M ?s2"
    by (intro preserved_mlq_run [OF pm] preserved_mark_start [OF pm] assms)
  have "evolve ?s1 ?s2"
    using assms(5,6) by (intro mlq_run_evolve) (simp add: mark_start_nth)
  then have "evolve s ?s2"
    by (rule evolve_trans) (rule quiet_evolve [OF quiet_mark_start])
  from evolve_nth_pid [OF this assms(5)] assms(6)
  have i2: "i < length (procs ?s2)" "pid (procs ?s2 ! i) = x" by simp_all
  have "remaining (procs ?s2 ! i) \<le> 0"
    using mlq_run_exit [of i ?s1 x] assms(5) by simp
  with m2 i2 have "F (mark_done i ?s2)" by (intro fin)
  with None show ?thesis by (simp add: mlq_bg_turn_def)
next
  case (Some qu)
  let ?s1 = "mark_start i s"
  let ?s2 = "run_for enqueueArrivalsM m_ready i x (nat (min qu (remaining (procs ?s1 ! i)))) ?s1"
  have m2: "M ?s2"
    by (intro preserved_run_for [OF pm] preserved_mark_start [OF pm] assms)
  have "evolve ?s1 ?s2"
    using assms(5,6) by (intro slice_evolve quiet_enqueueArrivalsM) (simp_all add: mark_start_nth)
  then have "evolve s ?s2"
    by (rule evolve_trans) (rule quiet_evolve [OF quiet_mark_start])
  from evolve_nth_pid [OF this assms(5)] assms(6)
  have i2: "i < length (procs ?s2)" "pid (procs ?s2 ! i) = x" by simp_all
  show ?thesis
  proof (cases "remaining (procs ?s2 ! i) = 0")
    case True
    then have "mlq_bg_turn bq x i s = mark_done i ?s2"
      using Some by (simp add: mlq_bg_turn_def Let_def)
    moreover have "F (mark_done i ?s2)"
      using m2 i2 True by (intro fin) simp_all
    ultimately show ?thesis by simp
  next
    case False
    then have "mlq_bg_turn bq x i s = ?s2\<lparr>bgQueue := bgQueue ?s2 @ [x]\<rparr>"
      using Some by (simp add: mlq_bg_turn_def Let_def)
    moreover have "F (?s2\<lparr>bgQueue := bgQueue ?s2 @ [x]\<rparr>)"
      using m2 i2 by (rule push)
    ultimately show ?thesis by simp
  qed
qed

lemma mlq_body_rule:
  assumes pf: "preserved enqueueArrivalsM F"
    and pmf: "\<And>x. preserved enqueueArrivalsM (Mf x)"
    and pmb: "\<And>x. preserved enqueueArrivalsM (Mb x)"
    and popf: "\<And>s x rest i. F s \<Longrightarrow> fgQueue s = x # rest \<Longrightarrow>
        findIndex (\<lambda>p. pid p = x) (procs s) = Some i \<Longrightarrow> Mf x (s\<lparr>fgQueue := rest\<rparr>)"
    and pushf: "\<And>s x i. Mf x s \<Longrightarrow> i < length (procs s) \<Longrightarrow> pid (procs s ! i) = x \<Longrightarrow>
        F (s\<lparr>fgQueue := fgQueue s @ [x]\<rparr>)"
    and finf: "\<And>s x i. Mf x s \<Longrightarrow> i < length (procs s) \<Longrightarrow> pid (procs s ! i) = x \<Longrightarrow>
        remaining (procs s ! i) \<le> 0 \<Longrightarrow> F (mark_done i s)"
    and popb: "\<And>s x rest i. F s \<Longrightarrow> fgQueue s = [] \<Longrightarrow> bgQueue s = x # rest \<Longrightarrow>
        findIndex (\<lambda>p. pid p = x) (procs s) = Some i \<Longrightarrow> Mb x (s\<lparr>bgQueue := rest\<rparr>)"
    and pushb: "\<And>s x i. Mb x s \<Longrightarrow> i < length (procs s) \<Longrightarrow> pid (procs s ! i) = x \<Longrightarrow>
        F (s\<lparr>bgQueue := bgQueue s @ [x]\<rparr>)"
    and finb: "\<And>s x i. Mb x s \<Longrightarrow> i < length (procs s) \<Longrightarrow> pid (procs s ! i) = x \<Longrightarrow>
        remaining (procs s ! i) \<le> 0 \<Longrightarrow> F (mark_done i s)"
    and "F s" and "mlq_body fq bq s = Continue s' \<or> mlq_body fq bq s = Break s'"
  shows "F s'"
proof (cases rule: mlq_body_cases [where s = s and fq = fq and bq = bq])
  case (idle s1)
  have f1: "F s1" unfolding idle(1) by (rule preserved_enq [OF pf]) fact
  from idle assms(11) have "m_idle s1 = Continue s' \<or> m_idle s1 = Break s'" by simp
  with pf f1 show ?thesis by (rule m_idle_rule)
next
  case (throw s1)
  with assms(11) show ?thesis by simp
next
  case (fg s1 x rest i)
  have f1: "F s1" unfolding fg(1) by (rule preserved_enq [OF pf]) fact
  let ?s2 = "s1\<lparr>fgQueue := rest\<rparr>"
  have "Mf x ?s2" using f1 fg(2,3) by (rule popf)
  moreover have "i < length (procs ?s2)" "pid (procs ?s2 ! i) = x"
    using findIndex_Some [OF fg(3)] by simp_all
  ultimately have "F (mlq_fg_turn fq x i ?s2)"
    by (intro mlq_fg_turn_rule [where M = "Mf x" and F = F] pmf pushf finf)
  with fg(4) assms(11) show ?thesis by simp
next
  case (bg s1 x rest i)
  have f1: "F s1" unfolding bg(1) by (rule preserved_enq [OF pf]) fact
  let ?s2 = "s1\<lparr>bgQueue := rest\<rparr>"
  have "Mb x ?s2" using f1 bg(2,3,4) by (rule popb)
  moreover have "i < length (procs ?s2)" "pid (procs ?s2 ! i) = x"
    using findIndex_Some [OF bg(4)] by simp_all
  ultimately have "F (mlq_bg_turn bq x i ?s2)"
    by (intro mlq_bg_turn_rule [where M = "Mb x" and F = F] pmb pushb finb)
  with bg(5) assms(11) show ?thesis by simp
qed

section \<open>The simulators never throw\<close>

lemma findIndex_mem: "x \<in> set (map f xs) \<Longrightarrow> \<exists>i. findIndex (\<lambda>p. f p = x) xs = Some i"
  by (induction xs) auto

lemma gentle_set_pid: "gentle f \<Longrightarrow> pid ` set (xs[i := f (xs ! i)]) = pid ` set xs"
  using gentle_maps(1) [of f xs i] by (metis set_map)

lemma admit_set_pid [simp]: "pid ` set (admit t ps) = pid ` set ps"
  using admit_maps(2) [of t ps] by (metis set_map)

lemma preserved_q_wf: "preserved enqueueArrivals q_wf"
  unfolding preserved_def q_wf_def
  by (auto simp: gentle_set_pid)

lemma preserved_m_wf: "preserved enqueueArrivalsM m_wf"
  unfolding preserved_def m_wf_def
  by (auto simp: gentle_set_pid)

lemma q_wf_pop: "q_wf s \<Longrightarrow> readyQueue s = x # rest \<Longrightarrow> q_wf (s\<lparr>readyQueue := rest\<rparr>)"
  by (simp add: q_wf_def)

lemma q_wf_push:
  "q_wf s \<Longrightarrow> i < length (procs s) \<Longrightarrow> pid (procs s ! i) = x \<Longrightarrow>
   q_wf (s\<lparr>readyQueue := readyQueue s @ [x]\<rparr>)"
  by (auto simp: q_wf_def)

lemma q_wf_mark_done: "q_wf s \<Longrightarrow> q_wf (mark_done i s)"
  by (simp add: q_wf_def)

lemma m_wf_mark_done: "m_wf s \<Longrightarrow> m_wf (mark_done i s)"
  by (simp add: m_wf_def)

lemma rr_body_q_wf:
  "q_wf s \<Longrightarrow> rr_body qu s = Continue s' \<or> rr_body qu s = Break s' \<Longrightarrow> q_wf s'"
  by (rule rr_body_rule [where F = q_wf and M = "\<lambda>x. q_wf" and s = s and qu = qu])
     (auto intro: preserved_q_wf q_wf_pop q_wf_push q_wf_mark_done)

lemma fcfs_body_q_wf:
  "q_wf s \<Longrightarrow> fcfs_body s = Continue s' \<or> fcfs_body s = Break s' \<Longrightarrow> q_wf s'"
  by (rule fcfs_body_rule [where F = q_wf and M = "\<lambda>x. q_wf" and s = s])
     (auto intro: preserved_q_wf q_wf_pop q_wf_mark_done)

lemma mlq_body_m_wf:
  "m_wf s \<Longrightarrow> mlq_body fq bq s = Continue s' \<or> mlq_body fq bq s = Break s' \<Longrightarrow> m_wf s'"
  by (rule mlq_body_rule [where F = m_wf and Mf = "\<lambda>x. m_wf" and Mb = "\<lambda>x. m_wf" and s = s
        and fq = fq and bq = bq])
     (auto intro: preserved_m_wf m_wf_mark_done simp: m_wf_def)

lemma q_idle_no_throw: "q_idle s \<noteq> Throw"
  by (simp add: q_idle_def split: option.splits)

lemma l_idle_no_throw: "l_idle s \<noteq> Throw"
  by (simp add: l_idle_def split: option.splits)

lemma m_idle_no_throw: "m_idle s \<noteq> Throw"
  by (simp add: m_idle_def split: option.splits)

lemma rr_body_no_throw:
  assumes "q_wf s"
  shows "rr_body qu s \<noteq> Throw"
proof (cases rule: rr_body_cases [where s = s and qu = qu])
  case (idle s1)
  then show ?thesis by (simp add: q_idle_no_throw)
next
  case (throw s1 x rest)
  have "q_wf s1" unfolding throw(1) by (rule preserved_enq [OF preserved_q_wf assms])
  with throw(2) have "x \<in> set (map pid (procs s1))" by (simp add: q_wf_def)
  from findIndex_mem [OF this] throw(3) show ?thesis by simp
next
  case (turn s1 x rest i)
  then show ?thesis by simp
qed

lemma fcfs_body_no_throw:
  assumes "q_wf s"
  shows "fcfs_body s \<noteq> Throw"
proof (cases rule: fcfs_body_cases [where s = s])
  case (idle s1)
  then show ?thesis by (simp add: q_idle_no_throw)
next
  case (throw s1 x rest)
  have "q_wf s1" unfolding throw(1) by (rule preserved_enq [OF preserved_q_wf assms])
  with throw(2) have "x \<in> set (map pid (procs s1))" by (simp add: q_wf_def)
  from findIndex_mem [OF this] throw(3) show ?thesis by simp
next
  case (turn s1 x rest i)
  then show ?thesis by simp
qed

lemma l_body_no_throw: "l_body cmp s \<noteq> Throw"
  by (simp add: l_body_def Let_def l_idle_no_throw split: list.splits)

lemma mlq_body_no_throw:
  assumes "m_wf s"
  shows "mlq_body fq bq s \<noteq> Throw"
proof (cases rule: mlq_body_cases [where s = s and fq = fq and bq = bq])
  case (idle s1)
  then show ?thesis by (simp add: m_idle_no_throw)
next
  case (throw s1)
  have "m_wf s1" unfolding throw(1) by (rule preserved_enq [OF preserved_m_wf assms])
  with throw(3) obtain x where "x \<in> set (map pid (procs s1))"
    "findIndex (\<lambda>p. pid p = x) (procs s1) = None"
    unfolding m_wf_def by blast
  with findIndex_mem [of x pid "procs s1"] show ?thesis by simp
next
  case (fg s1 x rest i)
  then show ?thesis by simp
next
  case (bg s1 x rest i)
  then show ?thesis by simp
qed

lemma q_init_wf: "q_wf (q_init ds)"
  by (auto simp: q_wf_def q_init_def)

lemma m_init_wf: "m_wf (m_init ds)"
  by (auto simp: m_wf_def m_init_def)

lemma outcome_Some: "outcome (Some (iter, s)) = Inr (finish s)"
  by (simp add: outcome_def)

lemma simulateRR_returns: "\<exists>r. simulateRR ds qu = Inr r"
proof -
  have "\<exists>iter' s'. while_iter q_pending (rr_body qu) 0 (q_init ds) = Some (iter', s')"
    by (rule while_iter_total [where I = q_wf])
       (auto intro: rr_body_q_wf q_init_wf dest: rr_body_no_throw [where qu = qu])
  then show ?thesis by (auto simp: simulateRR_def outcome_Some)
qed

lemma simulateFCFS_returns: "\<exists>r. simulateFCFS ds = Inr r"
proof -
  have "\<exists>iter' s'. while_iter q_pending fcfs_body 0 (q_init ds) = Some (iter', s')"
    by (rule while_iter_total [where I = q_wf])
       (auto intro: fcfs_body_q_wf q_init_wf dest: fcfs_body_no_throw)
  then show ?thesis by (auto simp: simulateFCFS_def outcome_Some)
qed

lemma simulateSJF_returns: "\<exists>r. simulateSJF ds = Inr r"
proof -
  have "\<exists>iter' s'. while_iter l_pending (l_body sjf_cmp) 0 (l_init ds) = Some (iter', s')"
    by (rule while_iter_total [where I = "\<lambda>s. True"]) (simp_all add: l_body_no_throw)
  then show ?thesis by (auto simp: simulateSJF_def outcome_Some)
qed

lemma simulatePriority_returns: "\<exists>r. simulatePriority ds = Inr r"
proof -
  have "\<exists>iter' s'. while_iter l_pending (l_body priority_cmp) 0 (l_init ds) = Some (iter', s')"
    by (rule while_iter_total [where I = "\<lambda>s. True"]) (simp_all add: l_body_no_throw)
  then show ?thesis by (auto simp: simulatePriority_def outcome_Some)
qed

lemma simulateMLQ_returns: "\<exists>r. simulateMLQ ds fq bq = Inr r"
proof -
  have "\<exists>iter' s'. while_iter m_pending (mlq_body fq bq) 0 (m_init ds) = Some (iter', s')"
    by (rule while_iter_total [where I = m_wf])
       (auto intro: mlq_body_m_wf m_init_wf dest: mlq_body_no_throw [where fq = fq and bq = bq])
  then show ?thesis by (auto simp: simulateMLQ_def outcome_Some)
qed

text \<open>For every tag, process list and options, \<open>simulate\<close> returns a result.\<close>

lemma simulate_returns: "\<exists>r. simulate algorithm ps opts = Inr r"
  unfolding simulate_def Let_def
  using simulateRR_returns simulateFCFS_returns simulateSJF_returns simulatePriority_returns
    simulateMLQ_returns
  by auto

section \<open>Claims about every run\<close>

lemma finish_sel [simp]:
  "out_trace (finish s) = trace s" "historySnapshots (finish s) = history s"
  "stats (finish s) = computeStats (map (finalize (time s)) (procs s))"
  by (simp_all add: finish_def)

lemma map_pair_zip: "map (\<lambda>p. (f p, g p)) xs = zip (map f xs) (map g xs)"
  by (induction xs) auto

lemma loaded_evolve:
  assumes "loaded ds s0" "evolve s0 s"
  shows "synced s" "recorded s" "worked s" "length (procs s) = length ds"
    "set (map (\<lambda>p. (pid p, burst p)) (procs s)) = set (map (\<lambda>d. (pid d, burst d)) ds)"
proof -
  from assms(1) have f: "fresh s0" by (simp add: loaded_def)
  show "synced s" by (rule synced_evolve [OF assms(2) fresh_synced [OF f]])
  show "recorded s" by (rule recorded_evolve [OF assms(2) fresh_recorded [OF f]])
  show "worked s" by (rule worked_evolve [OF assms(2) fresh_worked [OF f]])
  from evolve_static [OF assms(2)] assms(1) show "length (procs s) = length ds"
    by (simp add: loaded_def)
  have "map (\<lambda>p. (pid p, burst p)) (procs s) = zip (map pid (procs s)) (map burst (procs s))"
    by (rule map_pair_zip)
  also have "\<dots> = zip (map pid (procs s0)) (map burst (procs s0))"
    using evolve_static [OF assms(2)] by simp
  also have "\<dots> = map (\<lambda>p. (pid p, burst p)) (procs s0)"
    by (rule map_pair_zip [symmetric])
  finally show "set (map (\<lambda>p. (pid p, burst p)) (procs s)) =
      set (map (\<lambda>d. (pid d, burst d)) ds)"
    using assms(1) by (simp add: loaded_def)
qed

lemma synced_finish:
  assumes "synced s" "r = finish s"
  shows "length (historySnapshots r) = length (out_trace r) \<and>
     (\<forall>k < length (out_trace r).
        ev_time (out_trace r ! k) = int k \<and> snap_time (historySnapshots r ! k) = int k \<and>
        snap_cpu (historySnapshots r ! k) = ev_cpu (out_trace r ! k) \<and>
        snap_ready (historySnapshots r ! k) = ev_ready (out_trace r ! k))"
  using assms by (simp add: synced_def agree_def)

text \<open>
  C9: for every simulation run and every algorithm, the returned \<open>trace\<close> and
  \<open>historySnapshots\<close> have equal length; entry \<open>k\<close> of both records time \<open>k\<close>, the same CPU
  occupant (or none) and the same ready-queue contents; so the recorded times are
  \<open>0, 1, 2, \<dots>\<close> with no gap, an idle unit giving one entry like any other.
\<close>

theorem C9_trace_and_snapshots_in_step:
  "\<exists>r. simulate algorithm ps opts = Inr r \<and>
       length (historySnapshots r) = length (out_trace r) \<and>
       (\<forall>k < length (out_trace r).
          ev_time (out_trace r ! k) = int k \<and> snap_time (historySnapshots r ! k) = int k \<and>
          snap_cpu (historySnapshots r ! k) = ev_cpu (out_trace r ! k) \<and>
          snap_ready (historySnapshots r ! k) = ev_ready (out_trace r ! k))"
proof -
  from simulate_returns obtain r where r: "simulate algorithm ps opts = Inr r" by blast
  have "length (historySnapshots r) = length (out_trace r) \<and>
     (\<forall>k < length (out_trace r).
        ev_time (out_trace r ! k) = int k \<and> snap_time (historySnapshots r ! k) = int k \<and>
        snap_cpu (historySnapshots r ! k) = ev_cpu (out_trace r ! k) \<and>
        snap_ready (historySnapshots r ! k) = ev_ready (out_trace r ! k))"
    using r
  proof (cases rule: simulate_result)
    case (Q s0 s)
    from loaded_evolve(1) [OF Q(1,2)] Q(3) show ?thesis by (rule synced_finish)
  next
    case (L s0 s)
    from loaded_evolve(1) [OF L(1,2)] L(3) show ?thesis by (rule synced_finish)
  next
    case (M s0 s)
    from loaded_evolve(1) [OF M(1,2)] M(3) show ?thesis by (rule synced_finish)
  qed
  with r show ?thesis by blast
qed

lemmas fcfs_eval =
  simulateFCFS_def q_init_def enqueueArrivals_def q_pending_def q_idle_def fcfs_body_def
  fcfs_turn_def fcfs_run.simps

lemma late_job_FCFS:
  "simulate ''FCFS'' late_job no_options =
     Inr \<lparr>out_trace =
            [\<lparr>ev_time = 0, ev_cpu = None, ev_ready = [], event = ''idle''\<rparr>,
             \<lparr>ev_time = 1, ev_cpu = Some ''P1'', ev_ready = [], event = ''exec(P1)''\<rparr>,
             \<lparr>ev_time = 2, ev_cpu = Some ''P1'', ev_ready = [], event = ''exec(P1)''\<rparr>],
          historySnapshots =
            [\<lparr>snap_time = 0, snap_cpu = None, snap_ready = [],
              snap_procs =
                [\<lparr>ps_pid = ''P1'', ps_arrival = 1, ps_burst = 2, ps_remaining = 2,
                  ps_startTime = None, ps_completionTime = None, ps_priority = 0\<rparr>]\<rparr>,
             \<lparr>snap_time = 1, snap_cpu = Some ''P1'', snap_ready = [],
              snap_procs =
                [\<lparr>ps_pid = ''P1'', ps_arrival = 1, ps_burst = 2, ps_remaining = 1,
                  ps_startTime = Some 1, ps_completionTime = None, ps_priority = 0\<rparr>]\<rparr>,
             \<lparr>snap_time = 2, snap_cpu = Some ''P1'', snap_ready = [],
              snap_procs =
                [\<lparr>ps_pid = ''P1'', ps_arrival = 1, ps_burst = 2, ps_remaining = 0,
                  ps_startTime = Some 1, ps_completionTime = None, ps_priority = 0\<rparr>]\<rparr>],
          stats =
            \<lparr>avgWaiting = Num 0, avgTurnaround = Num 2, makespan = Num 2,
             throughput = Num (1 / 3),
             processes =
               [\<lparr>pid = ''P1'', arrival = 1, burst = 2, priority = 0, remaining = 0,
                 startTime = Some 1, completionTime = Some 3, enqueued = True,
                 turnaround = 2, waiting = 0\<rparr>]\<rparr>\<rparr>"
  by (simp add: sim_eval fcfs_eval late_job_def no_options_def)

theorem C9_trace_and_snapshots_in_step_witness:
  "\<exists>r. simulate ''FCFS'' late_job no_options = Inr r \<and>
       length (historySnapshots r) = 3 \<and> length (out_trace r) = 3 \<and>
       ev_time (out_trace r ! 0) = 0 \<and> snap_time (historySnapshots r ! 0) = 0 \<and>
       snap_cpu (historySnapshots r ! 0) = None \<and> ev_cpu (out_trace r ! 0) = None \<and>
       ev_time (out_trace r ! 2) = 2 \<and> snap_time (historySnapshots r ! 2) = 2 \<and>
       snap_cpu (historySnapshots r ! 2) = ev_cpu (out_trace r ! 2) \<and>
       snap_ready (historySnapshots r ! 2) = ev_ready (out_trace r ! 2)"
proof -
  from C9_trace_and_snapshots_in_step [of "''FCFS''" late_job no_options]
  obtain r where r: "simulate ''FCFS'' late_job no_options = Inr r"
    and len: "length (historySnapshots r) = length (out_trace r)"
    and all: "\<And>k. k < length (out_trace r) \<Longrightarrow>
          ev_time (out_trace r ! k) = int k \<and> snap_time (historySnapshots r ! k) = int k \<and>
          snap_cpu (historySnapshots r ! k) = ev_cpu (out_trace r ! k) \<and>
          snap_ready (historySnapshots r ! k) = ev_ready (out_trace r ! k)"
    by blast
  from r have n: "length (out_trace r) = 3" and c: "ev_cpu (out_trace r ! 0) = None"
    unfolding late_job_FCFS by auto
  from all [of 0] all [of 2] n len c r show ?thesis by auto
qed

lemma recorded_finish:
  assumes "recorded s" "r = finish s" "k < length (historySnapshots r)"
    "snap_cpu (historySnapshots r ! k) = Some x"
  shows "\<exists>i < length (snap_procs (historySnapshots r ! k)).
     ps_pid (snap_procs (historySnapshots r ! k) ! i) = x \<and>
     0 < remaining_before (historySnapshots r) k ! i \<and>
     ps_remaining (snap_procs (historySnapshots r ! k) ! i) =
       remaining_before (historySnapshots r) k ! i - 1 \<and>
     map ps_remaining (snap_procs (historySnapshots r ! k)) =
       (remaining_before (historySnapshots r) k)
         [i := remaining_before (historySnapshots r) k ! i - 1]"
proof -
  let ?h = "history s ! k"
  let ?b = "remaining_before (history s) k"
  from assms have k: "k < length (history s)" and c: "snap_cpu ?h = Some x" by simp_all
  from assms(1) k have "unit_applied (history s) k" by (simp add: recorded_def)
  with c obtain i where i: "i < length ?b" "map ps_pid (snap_procs ?h) ! i = x" "0 < ?b ! i"
    "map ps_remaining (snap_procs ?h) = ?b[i := ?b ! i - 1]"
    by (auto simp: unit_applied_def unit_step_def)
  from i(4) have "length (map ps_remaining (snap_procs ?h)) = length ?b"
    by (metis length_list_update)
  then have len: "length (snap_procs ?h) = length ?b" by simp
  have "ps_remaining (snap_procs ?h ! i) = map ps_remaining (snap_procs ?h) ! i"
    using len i(1) by simp
  also have "\<dots> = (?b[i := ?b ! i - 1]) ! i"
    by (simp only: i(4))
  also have "\<dots> = ?b ! i - 1"
    using i(1) by simp
  finally have dec: "ps_remaining (snap_procs ?h ! i) = ?b ! i - 1" .
  have "ps_pid (snap_procs ?h ! i) = x"
    using i(2) len i(1) by simp
  with i len dec have "i < length (snap_procs ?h) \<and> ps_pid (snap_procs ?h ! i) = x \<and>
    0 < ?b ! i \<and> ps_remaining (snap_procs ?h ! i) = ?b ! i - 1 \<and>
    map ps_remaining (snap_procs ?h) = ?b[i := ?b ! i - 1]"
    by simp
  then show ?thesis
    unfolding assms(2) finish_sel by blast
qed

text \<open>
  C10: for every simulation run and every snapshot whose CPU occupant is a process \<open>p\<close>, the
  copy of \<open>p\<close> in that snapshot holds \<open>p\<close>'s remaining time after the unit of execution of
  that time has been applied: it is one less than the remaining time before the unit (the
  burst for the first snapshot, the previous snapshot's value afterwards), which was
  positive, and no other process's remaining time has changed. So the snapshot of \<open>p\<close>'s
  final unit (remaining 1 before it) shows \<open>remaining = 0\<close> with \<open>p\<close> on the CPU.
\<close>

theorem C10_snapshot_after_decrement:
  "\<exists>r. simulate algorithm ps opts = Inr r \<and>
       (\<forall>k < length (historySnapshots r). \<forall>x.
          snap_cpu (historySnapshots r ! k) = Some x \<longrightarrow>
          (\<exists>i < length (snap_procs (historySnapshots r ! k)).
             ps_pid (snap_procs (historySnapshots r ! k) ! i) = x \<and>
             0 < remaining_before (historySnapshots r) k ! i \<and>
             ps_remaining (snap_procs (historySnapshots r ! k) ! i) =
               remaining_before (historySnapshots r) k ! i - 1 \<and>
             map ps_remaining (snap_procs (historySnapshots r ! k)) =
               (remaining_before (historySnapshots r) k)
                 [i := remaining_before (historySnapshots r) k ! i - 1]))"
proof -
  from simulate_returns obtain r where r: "simulate algorithm ps opts = Inr r" by blast
  have "\<exists>i < length (snap_procs (historySnapshots r ! k)).
             ps_pid (snap_procs (historySnapshots r ! k) ! i) = x \<and>
             0 < remaining_before (historySnapshots r) k ! i \<and>
             ps_remaining (snap_procs (historySnapshots r ! k) ! i) =
               remaining_before (historySnapshots r) k ! i - 1 \<and>
             map ps_remaining (snap_procs (historySnapshots r ! k)) =
               (remaining_before (historySnapshots r) k)
                 [i := remaining_before (historySnapshots r) k ! i - 1]"
    if "k < length (historySnapshots r)" "snap_cpu (historySnapshots r ! k) = Some x" for k x
    using r
  proof (cases rule: simulate_result)
    case (Q s0 s)
    from loaded_evolve(2) [OF Q(1,2)] Q(3) that show ?thesis by (rule recorded_finish)
  next
    case (L s0 s)
    from loaded_evolve(2) [OF L(1,2)] L(3) that show ?thesis by (rule recorded_finish)
  next
    case (M s0 s)
    from loaded_evolve(2) [OF M(1,2)] M(3) that show ?thesis by (rule recorded_finish)
  qed
  with r show ?thesis by blast
qed

theorem C10_snapshot_after_decrement_witness:
  "\<exists>r. simulate ''FCFS'' late_job no_options = Inr r \<and> 2 < length (historySnapshots r) \<and>
       snap_cpu (historySnapshots r ! 2) = Some ''P1'' \<and>
       remaining_before (historySnapshots r) 2 = [1] \<and>
       (\<exists>i < length (snap_procs (historySnapshots r ! 2)).
          ps_pid (snap_procs (historySnapshots r ! 2) ! i) = ''P1'' \<and>
          ps_remaining (snap_procs (historySnapshots r ! 2) ! i) = 0)"
proof -
  from C10_snapshot_after_decrement [of "''FCFS''" late_job no_options]
  obtain r where r: "simulate ''FCFS'' late_job no_options = Inr r"
    and all: "\<And>k x. k < length (historySnapshots r) \<Longrightarrow>
          snap_cpu (historySnapshots r ! k) = Some x \<Longrightarrow>
          (\<exists>i < length (snap_procs (historySnapshots r ! k)).
             ps_pid (snap_procs (historySnapshots r ! k) ! i) = x \<and>
             0 < remaining_before (historySnapshots r) k ! i \<and>
             ps_remaining (snap_procs (historySnapshots r ! k) ! i) =
               remaining_before (historySnapshots r) k ! i - 1 \<and>
             map ps_remaining (snap_procs (historySnapshots r ! k)) =
               (remaining_before (historySnapshots r) k)
                 [i := remaining_before (historySnapshots r) k ! i - 1])"
    by blast
  from r have n: "2 < length (historySnapshots r)"
    and c: "snap_cpu (historySnapshots r ! 2) = Some ''P1''"
    and b: "remaining_before (historySnapshots r) 2 = [1]"
    and l: "length (snap_procs (historySnapshots r ! 2)) = 1"
    unfolding late_job_FCFS by (auto simp: remaining_before_def)
  from all [OF n c] obtain i where i: "i < length (snap_procs (historySnapshots r ! 2))"
    "ps_pid (snap_procs (historySnapshots r ! 2) ! i) = ''P1''"
    "ps_remaining (snap_procs (historySnapshots r ! 2) ! i) =
       remaining_before (historySnapshots r) 2 ! i - 1"
    by blast
  from i(1) l have "i = 0" by simp
  with i b have "\<exists>i < length (snap_procs (historySnapshots r ! 2)).
          ps_pid (snap_procs (historySnapshots r ! 2) ! i) = ''P1'' \<and>
          ps_remaining (snap_procs (historySnapshots r ! 2) ! i) = 0"
    by auto
  with r n c b show ?thesis by blast
qed

section \<open>Processes with a non-positive burst\<close>

lemma worked_finish:
  assumes "worked s" "r = finish s"
    and pairs: "set (map (\<lambda>p. (pid p, burst p)) (procs s)) =
      set (map (\<lambda>d. (pid d, burst d)) (map normalize ps))"
    and "distinct (map in_pid ps)" "p \<in> set ps" "in_burst p \<le> 0" "e \<in> set (out_trace r)"
  shows "ev_cpu e \<noteq> Some (in_pid p)"
proof
  assume "ev_cpu e = Some (in_pid p)"
  moreover have "e \<in> set (trace s)"
    using assms(2,7) by simp
  ultimately have "\<exists>k < length (procs s).
      map pid (procs s) ! k = in_pid p \<and> 0 < map burst (procs s) ! k"
    using assms(1) unfolding worked_def by blast
  then obtain k where k: "k < length (procs s)"
    "pid (procs s ! k) = in_pid p" "0 < burst (procs s ! k)"
    by auto
  from k(1) have "procs s ! k \<in> set (procs s)" by simp
  then have "(pid (procs s ! k), burst (procs s ! k)) \<in>
      set (map (\<lambda>p. (pid p, burst p)) (procs s))"
    by (simp only: set_map) (rule imageI)
  with k(2) have "(in_pid p, burst (procs s ! k)) \<in>
      set (map (\<lambda>p. (pid p, burst p)) (procs s))"
    by simp
  with pairs obtain p' where p': "p' \<in> set ps" "in_pid p' = in_pid p"
    "in_burst p' = burst (procs s ! k)"
    by (auto simp: normalize_def)
  from assms(4) have "inj_on in_pid (set ps)" by (simp add: distinct_map)
  with p'(1,2) assms(5) have "p' = p" by (auto dest: inj_onD)
  with p'(3) k assms(6) show False by simp
qed

text \<open>
  C5 as the specification states it: a process list containing a process of burst zero (or
  less) makes \<open>simulate\<close> fail with \<open>InvalidInput\<close>. No simulator checks the bursts: with a
  single process of burst 0 the call returns, with an empty trace and the clock still at 0.
\<close>

theorem C5_non_positive_burst_counterexample:
  "simulate ''FCFS'' zero_job no_options =
     Inr \<lparr>out_trace = [], historySnapshots = [],
          stats =
            \<lparr>avgWaiting = Num 0, avgTurnaround = Num 0, makespan = Num 0, throughput = Num 1,
             processes =
               [\<lparr>pid = ''P1'', arrival = 0, burst = 0, priority = 0, remaining = 0,
                 startTime = Some 0, completionTime = Some 0, enqueued = False,
                 turnaround = 0, waiting = 0\<rparr>]\<rparr>\<rparr>"
  by (simp add: sim_eval fcfs_eval zero_job_def no_options_def)

text \<open>
  C5, amended: for every process list with unique identifiers that contains a process whose
  burst is zero or negative, and for every algorithm tag, \<open>simulate\<close> returns a result (it
  does not fail), and that process never occupies the CPU: no trace entry names it.
\<close>

theorem C5_non_positive_burst_never_runs:
  assumes "distinct (map in_pid ps)" "p \<in> set ps" "in_burst p \<le> 0"
  shows "\<exists>r. simulate algorithm ps opts = Inr r \<and>
       (\<forall>e \<in> set (out_trace r). ev_cpu e \<noteq> Some (in_pid p))"
proof -
  from simulate_returns obtain r where r: "simulate algorithm ps opts = Inr r" by blast
  have "ev_cpu e \<noteq> Some (in_pid p)" if "e \<in> set (out_trace r)" for e
    using r
  proof (cases rule: simulate_result)
    case (Q s0 s)
    from loaded_evolve(3) [OF Q(1,2)] Q(3) loaded_evolve(5) [OF Q(1,2)] assms that
    show ?thesis by (rule worked_finish)
  next
    case (L s0 s)
    from loaded_evolve(3) [OF L(1,2)] L(3) loaded_evolve(5) [OF L(1,2)] assms that
    show ?thesis by (rule worked_finish)
  next
    case (M s0 s)
    from loaded_evolve(3) [OF M(1,2)] M(3) loaded_evolve(5) [OF M(1,2)] assms that
    show ?thesis by (rule worked_finish)
  qed
  with r show ?thesis by blast
qed


theorem C5_non_positive_burst_never_runs_witness:
  "distinct (map in_pid mixed_jobs) \<and> hd mixed_jobs \<in> set mixed_jobs \<and>
   in_burst (hd mixed_jobs) \<le> 0 \<and> in_pid (hd mixed_jobs) = ''P1'' \<and>
   (\<exists>r. simulate ''RR'' mixed_jobs no_options = Inr r \<and>
        (\<forall>e \<in> set (out_trace r). ev_cpu e \<noteq> Some ''P1''))"
proof -
  have h: "distinct (map in_pid mixed_jobs)" "hd mixed_jobs \<in> set mixed_jobs"
    "in_burst (hd mixed_jobs) \<le> 0" and n: "in_pid (hd mixed_jobs) = ''P1''"
    by (simp_all add: mixed_jobs_def)
  from C5_non_positive_burst_never_runs [OF h, of "''RR''" no_options] h n
  show ?thesis by simp
qed

section \<open>Statistics\<close>

lemma fold_add_sum_list: "fold (\<lambda>x s. s + f x) xs (a::int) = a + sum_list (map f xs)"
  by (induction xs arbitrary: a) simp_all

lemma js_max2_Num [simp]: "js_max2 (Num (of_int a)) (Num (of_int b)) = Num (of_int (max a b))"
  by (simp add: js_max2_def max_def)

lemma js_min2_Num [simp]: "js_min2 (Num (of_int a)) (Num (of_int b)) = Num (of_int (min a b))"
  by (auto simp: js_min2_def min_def)

lemma fold_js_max2:
  "fold (\<lambda>x m. js_max2 m x) (map (\<lambda>x. Num (of_int x)) xs) (Num (of_int a)) =
     Num (of_int (fold max xs a))"
  by (induction xs arbitrary: a) (simp_all add: max.commute)

lemma fold_js_min2:
  "fold (\<lambda>x m. js_min2 m x) (map (\<lambda>x. Num (of_int x)) xs) (Num (of_int a)) =
     Num (of_int (fold min xs a))"
  by (induction xs arbitrary: a) (simp_all add: min.commute)

lemma Math_max_ints:
  "xs \<noteq> [] \<Longrightarrow> Math_max (map (\<lambda>x. Num (of_int x)) xs) = Num (of_int (Max (set xs)))"
proof (cases xs)
  case Nil
  assume "xs \<noteq> []"
  with Nil show ?thesis by simp
next
  case (Cons y ys)
  have "js_max2 NegInfinity (Num (of_int y)) = Num (of_int y)"
    by (simp add: js_max2_def)
  moreover have "fold max ys y = Max (set (y # ys))"
    by (simp only: Max.set_eq_fold)
  ultimately show ?thesis
    unfolding Cons by (simp add: Math_max_def fold_js_max2)
qed

lemma Math_min_ints:
  "xs \<noteq> [] \<Longrightarrow> Math_min (map (\<lambda>x. Num (of_int x)) xs) = Num (of_int (Min (set xs)))"
proof (cases xs)
  case Nil
  assume "xs \<noteq> []"
  with Nil show ?thesis by simp
next
  case (Cons y ys)
  have "js_min2 PosInfinity (Num (of_int y)) = Num (of_int y)"
    by (simp add: js_min2_def)
  moreover have "fold min ys y = Min (set (y # ys))"
    by (simp only: Min.set_eq_fold)
  ultimately show ?thesis
    unfolding Cons by (simp add: Math_min_def fold_js_min2)
qed

lemma Math_max_pair: "Math_max [Num 1, Num (of_int l)] = Num (of_int (max 1 l))"
proof -
  have "js_max2 NegInfinity (Num 1) = Num (of_int 1)"
    by (simp add: js_max2_def)
  then show ?thesis
    unfolding Math_max_def by (simp del: of_int_1 js_max2_Num add: js_max2_Num [of 1 l])
qed

lemma finalize_sel [simp]:
  "pid (finalize t p) = pid p" "arrival (finalize t p) = arrival p"
  "burst (finalize t p) = burst p" "remaining (finalize t p) = remaining p"
  "completionTime (finalize t p) = Some (case completionTime p of None \<Rightarrow> t | Some c \<Rightarrow> c)"
  "turnaround (finalize t p) = (case completionTime p of None \<Rightarrow> t | Some c \<Rightarrow> c) - arrival p"
  "waiting (finalize t p) =
     (case completionTime p of None \<Rightarrow> t | Some c \<Rightarrow> c) - arrival p - burst p"
  by (simp_all add: finalize_def Let_def)

lemma computeStats_finalized:
  assumes "fs \<noteq> []" "\<forall>p \<in> set fs. completionTime p \<noteq> None"
  shows "avgWaiting (computeStats fs) =
       Num (of_int (sum_list (map (\<lambda>p. turnaround p - burst p) fs)) / of_nat (length fs))"
    and "avgTurnaround (computeStats fs) =
       Num (of_int (sum_list (map turnaround fs)) / of_nat (length fs))"
    and "makespan (computeStats fs) =
       Num (of_int (Max (set (map (\<lambda>p. the (completionTime p)) fs)) -
                    Min (set (map arrival fs))))"
    and "throughput (computeStats fs) =
       Num (of_nat (length fs) /
            of_int (max 1 (Max (set (map (\<lambda>p. the (completionTime p)) fs)))))"
    and "processes (computeStats fs) = fs"
proof -
  have n: "(of_nat (length fs) :: rat) \<noteq> 0" using assms(1) by simp
  have c: "map (\<lambda>p. Number_nullable (completionTime p)) fs =
      map (\<lambda>x. Num (of_int x)) (map (\<lambda>p. the (completionTime p)) fs)"
    using assms(2) by (auto simp: Number_nullable_def)
  have a: "map (\<lambda>p. Num (of_int (arrival p))) fs = map (\<lambda>x. Num (of_int x)) (map arrival fs)"
    by simp
  have mx: "Math_max (map (\<lambda>p. Number_nullable (completionTime p)) fs) =
      Num (of_int (Max (set (map (\<lambda>p. the (completionTime p)) fs))))"
    unfolding c using assms(1) by (intro Math_max_ints) simp
  have mn: "Math_min (map (\<lambda>p. Num (of_int (arrival p))) fs) =
      Num (of_int (Min (set (map arrival fs))))"
    unfolding a using assms(1) by (intro Math_min_ints) simp
  have m1: "(of_int (max 1 (Max (set (map (\<lambda>p. the (completionTime p)) fs)))) :: rat) \<noteq> 0"
    by (metis max.cobounded1 of_int_0_eq_iff not_one_le_zero)
  show "avgWaiting (computeStats fs) =
       Num (of_int (sum_list (map (\<lambda>p. turnaround p - burst p) fs)) / of_nat (length fs))"
    using n by (simp add: computeStats_def Let_def fold_add_sum_list)
  show "avgTurnaround (computeStats fs) =
       Num (of_int (sum_list (map turnaround fs)) / of_nat (length fs))"
    using n by (simp add: computeStats_def Let_def fold_add_sum_list)
  show "makespan (computeStats fs) =
       Num (of_int (Max (set (map (\<lambda>p. the (completionTime p)) fs)) -
                    Min (set (map arrival fs))))"
    by (simp only: computeStats_def Let_def mx mn statistics.simps js_sub.simps of_int_diff)
  show "throughput (computeStats fs) =
       Num (of_nat (length fs) /
            of_int (max 1 (Max (set (map (\<lambda>p. the (completionTime p)) fs)))))"
    using m1
    by (simp only: computeStats_def Let_def mx Math_max_pair statistics.simps js_div.simps
        not_False_eq_True if_True)
  show "processes (computeStats fs) = fs"
    by (simp add: computeStats_def Let_def)
qed


lemma stats_finish:
  assumes "procs s \<noteq> []" "r = finish s"
  shows "length (processes (stats r)) = length (procs s) \<and>
     (\<forall>p \<in> set (processes (stats r)).
        completionTime p \<noteq> None \<and> turnaround p = the (completionTime p) - arrival p \<and>
        waiting p = turnaround p - burst p) \<and>
     avgWaiting (stats r) =
       Num (of_int (sum_list (map (\<lambda>p. turnaround p - burst p) (processes (stats r)))) /
            of_nat (length (procs s))) \<and>
     avgTurnaround (stats r) =
       Num (of_int (sum_list (map turnaround (processes (stats r)))) /
            of_nat (length (procs s))) \<and>
     makespan (stats r) =
       Num (of_int (Max (set (map (\<lambda>p. the (completionTime p)) (processes (stats r)))) -
                    Min (set (map arrival (processes (stats r)))))) \<and>
     throughput (stats r) =
       Num (of_nat (length (procs s)) /
            of_int (max 1 (Max (set (map (\<lambda>p. the (completionTime p))
                                      (processes (stats r)))))))"
proof -
  let ?fs = "map (finalize (time s)) (procs s)"
  have fs: "?fs \<noteq> []" "\<forall>p \<in> set ?fs. completionTime p \<noteq> None"
    using assms(1) by auto
  have p: "processes (stats r) = ?fs"
    unfolding assms(2) finish_sel by (rule computeStats_finalized(5) [OF fs])
  have "\<forall>p \<in> set ?fs. completionTime p \<noteq> None \<and>
      turnaround p = the (completionTime p) - arrival p \<and> waiting p = turnaround p - burst p"
    by auto
  moreover have "length ?fs = length (procs s)" by simp
  ultimately show ?thesis
    unfolding p unfolding assms(2) finish_sel
    using computeStats_finalized(1-4) [OF fs] by simp
qed

text \<open>
  C8: for every simulation run over a non-empty process list, the returned statistics are
  computed from the finalised processes (one per input process, each with a completion time,
  \<open>turnaround = completionTime - arrival\<close> and \<open>waiting = turnaround - burst\<close>) as follows:
  \<open>avgWaiting\<close> is the mean of \<open>turnaround - burst\<close>, \<open>avgTurnaround\<close> the mean of \<open>turnaround\<close>,
  \<open>makespan\<close> is \<open>max(completionTime) - min(arrival)\<close>, and \<open>throughput\<close> is the process count
  divided by \<open>max(1, max(completionTime))\<close>. This holds whether or not every process
  completed inside the loop; the quotients are exact rationals.
\<close>

theorem C8_statistics:
  assumes "ps \<noteq> []"
  shows "\<exists>r. simulate algorithm ps opts = Inr r \<and>
     length (processes (stats r)) = length ps \<and>
     (\<forall>p \<in> set (processes (stats r)).
        completionTime p \<noteq> None \<and> turnaround p = the (completionTime p) - arrival p \<and>
        waiting p = turnaround p - burst p) \<and>
     avgWaiting (stats r) =
       Num (of_int (sum_list (map (\<lambda>p. turnaround p - burst p) (processes (stats r)))) /
            of_nat (length ps)) \<and>
     avgTurnaround (stats r) =
       Num (of_int (sum_list (map turnaround (processes (stats r)))) / of_nat (length ps)) \<and>
     makespan (stats r) =
       Num (of_int (Max (set (map (\<lambda>p. the (completionTime p)) (processes (stats r)))) -
                    Min (set (map arrival (processes (stats r)))))) \<and>
     throughput (stats r) =
       Num (of_nat (length ps) /
            of_int (max 1 (Max (set (map (\<lambda>p. the (completionTime p))
                                      (processes (stats r)))))))"
proof -
  from simulate_returns obtain r where r: "simulate algorithm ps opts = Inr r" by blast
  have "length (processes (stats r)) = length ps \<and>
     (\<forall>p \<in> set (processes (stats r)).
        completionTime p \<noteq> None \<and> turnaround p = the (completionTime p) - arrival p \<and>
        waiting p = turnaround p - burst p) \<and>
     avgWaiting (stats r) =
       Num (of_int (sum_list (map (\<lambda>p. turnaround p - burst p) (processes (stats r)))) /
            of_nat (length ps)) \<and>
     avgTurnaround (stats r) =
       Num (of_int (sum_list (map turnaround (processes (stats r)))) / of_nat (length ps)) \<and>
     makespan (stats r) =
       Num (of_int (Max (set (map (\<lambda>p. the (completionTime p)) (processes (stats r)))) -
                    Min (set (map arrival (processes (stats r)))))) \<and>
     throughput (stats r) =
       Num (of_nat (length ps) /
            of_int (max 1 (Max (set (map (\<lambda>p. the (completionTime p))
                                      (processes (stats r)))))))"
    using r
  proof (cases rule: simulate_result)
    case (Q s0 s)
    from loaded_evolve(4) [OF Q(1,2)] assms have l: "length (procs s) = length ps" by simp
    with assms have "procs s \<noteq> []" by auto
    from stats_finish [OF this Q(3)] show ?thesis unfolding l .
  next
    case (L s0 s)
    from loaded_evolve(4) [OF L(1,2)] assms have l: "length (procs s) = length ps" by simp
    with assms have "procs s \<noteq> []" by auto
    from stats_finish [OF this L(3)] show ?thesis unfolding l .
  next
    case (M s0 s)
    from loaded_evolve(4) [OF M(1,2)] assms have l: "length (procs s) = length ps" by simp
    with assms have "procs s \<noteq> []" by auto
    from stats_finish [OF this M(3)] show ?thesis unfolding l .
  qed
  with r show ?thesis by blast
qed

lemma two_jobs_FCFS:
  "case simulate ''FCFS'' two_jobs no_options of
     Inl e \<Rightarrow> False
   | Inr r \<Rightarrow>
       processes (stats r) =
         [\<lparr>pid = ''P1'', arrival = 0, burst = 2, priority = 0, remaining = 0,
           startTime = Some 0, completionTime = Some 2, enqueued = True,
           turnaround = 2, waiting = 0\<rparr>,
          \<lparr>pid = ''P2'', arrival = 1, burst = 2, priority = 0, remaining = 0,
           startTime = Some 2, completionTime = Some 4, enqueued = True,
           turnaround = 3, waiting = 1\<rparr>]"
  by (simp add: sim_eval fcfs_eval two_jobs_def no_options_def)

theorem C8_statistics_witness:
  "two_jobs \<noteq> [] \<and>
   (\<exists>r. simulate ''FCFS'' two_jobs no_options = Inr r \<and>
        avgWaiting (stats r) = Num (1 / 2) \<and> avgTurnaround (stats r) = Num (5 / 2) \<and>
        makespan (stats r) = Num 4 \<and> throughput (stats r) = Num (1 / 2))"
proof -
  have h: "two_jobs \<noteq> []" by (simp add: two_jobs_def)
  from C8_statistics [OF h, of "''FCFS''" no_options]
  obtain r where r: "simulate ''FCFS'' two_jobs no_options = Inr r"
    and s: "avgWaiting (stats r) =
       Num (of_int (sum_list (map (\<lambda>p. turnaround p - burst p) (processes (stats r)))) /
            of_nat (length two_jobs))"
     "avgTurnaround (stats r) =
       Num (of_int (sum_list (map turnaround (processes (stats r)))) /
            of_nat (length two_jobs))"
     "makespan (stats r) =
       Num (of_int (Max (set (map (\<lambda>p. the (completionTime p)) (processes (stats r)))) -
                    Min (set (map arrival (processes (stats r))))))"
     "throughput (stats r) =
       Num (of_nat (length two_jobs) /
            of_int (max 1 (Max (set (map (\<lambda>p. the (completionTime p))
                                      (processes (stats r)))))))"
    by blast
  from two_jobs_FCFS r have p: "processes (stats r) =
         [\<lparr>pid = ''P1'', arrival = 0, burst = 2, priority = 0, remaining = 0,
           startTime = Some 0, completionTime = Some 2, enqueued = True,
           turnaround = 2, waiting = 0\<rparr>,
          \<lparr>pid = ''P2'', arrival = 1, burst = 2, priority = 0, remaining = 0,
           startTime = Some 2, completionTime = Some 4, enqueued = True,
           turnaround = 3, waiting = 1\<rparr>]"
    by simp
  have "avgWaiting (stats r) = Num (1 / 2)" "avgTurnaround (stats r) = Num (5 / 2)"
    "makespan (stats r) = Num 4" "throughput (stats r) = Num (1 / 2)"
    using s unfolding p by (simp_all add: two_jobs_def)
  with h r show ?thesis by blast
qed

section \<open>The background quantum of the Multilevel Queue\<close>

lemmas mlq_eval =
  simulateMLQ_def m_init_def enqueueArrivalsM_def m_pending_def m_idle_def mlq_body_def
  mlq_fg_turn_def mlq_bg_turn_def mlq_run.simps m_ready_def

text \<open>
  C1: when the options do not supply \<open>mlqBgQuantum\<close>, a background process, once selected,
  runs to completion. The code does otherwise: \<open>simulate\<close> passes
  \<open>options.mlqBgQuantum ?? 4\<close>, so \<open>simulateMLQ\<close> never sees \<open>null\<close>. With two background
  processes \<open>A\<close> (burst 5) and \<open>B\<close> (burst 1) arriving at 0 and no option set, \<open>A\<close> is
  preempted after 4 units and goes behind \<open>B\<close>: the CPU sequence is \<open>A A A A B A\<close>, and at
  time 4 the ready queue is \<open>[A]\<close>.
\<close>

theorem C1_background_is_preempted_without_mlqBgQuantum:
  "case simulate ''MLQ'' background_jobs no_options of
     Inl e \<Rightarrow> False
   | Inr r \<Rightarrow>
       map (\<lambda>e. (ev_time e, ev_cpu e, ev_ready e)) (out_trace r) =
         [(0, Some ''A'', [''B'']), (1, Some ''A'', [''B'']), (2, Some ''A'', [''B'']),
          (3, Some ''A'', [''B'']), (4, Some ''B'', [''A'']), (5, Some ''A'', [])]"
  by (simp add: sim_eval mlq_eval background_jobs_def no_options_def)

text \<open>The same for every input: an absent \<open>mlqBgQuantum\<close> is the quantum 4, and the
  run-to-completion branch of \<open>simulateMLQ\<close> is the one \<open>simulate\<close> never takes.\<close>

lemma simulate_MLQ_default_background:
  "mlqBgQuantum opts = None \<Longrightarrow>
   simulate ''MLQ'' ps opts =
     simulateMLQ (map normalize ps) (nullish (mlqFgQuantum opts) 2) (Some 4)"
  by (simp add: simulate_def nullish_def)

lemma simulateMLQ_null_background:
  "case simulateMLQ (map normalize background_jobs) 2 None of
     Inl e \<Rightarrow> False
   | Inr r \<Rightarrow>
       map (\<lambda>e. (ev_time e, ev_cpu e, ev_ready e)) (out_trace r) =
         [(0, Some ''A'', [''B'']), (1, Some ''A'', [''B'']), (2, Some ''A'', [''B'']),
          (3, Some ''A'', [''B'']), (4, Some ''A'', [''B'']), (5, Some ''B'', [])]"
  by (simp add: sim_eval mlq_eval background_jobs_def)

section \<open>The iteration ceiling\<close>

lemma while_iter_stuck:
  assumes "body s = Continue s" "pending s"
  shows "iter \<le> maxIter \<Longrightarrow> while_iter pending body iter s = Some (maxIter, s)"
proof (induction "maxIter - iter" arbitrary: iter)
  case 0
  then have "while_iter pending body iter s = Some (iter, s)"
    by (subst while_iter.simps) simp
  with 0 show ?case by simp
next
  case (Suc n)
  then have "while_iter pending body iter s = while_iter pending body (iter + 1) s"
    using assms by (subst while_iter.simps) simp
  also have "\<dots> = Some (maxIter, s)"
    using Suc by (intro Suc.hyps(1)) simp_all
  finally show ?case .
qed

lemma rr_zero_first: "rr_body 0 (q_init (map normalize one_job)) = Continue spinning"
  by (simp add: sim_eval rr_eval one_job_def spinning_def)

lemma rr_zero_spins: "rr_body 0 spinning = Continue spinning"
  by (simp add: sim_eval rr_eval spinning_def)

lemma spinning_pending: "q_pending spinning"
  by (simp add: q_pending_def spinning_def)

lemma rr_zero_loop:
  "while_iter q_pending (rr_body 0) 0 (q_init (map normalize one_job)) = Some (maxIter, spinning)"
proof -
  have "q_pending (q_init (map normalize one_job))"
    by (simp add: sim_eval rr_eval one_job_def)
  then have "while_iter q_pending (rr_body 0) 0 (q_init (map normalize one_job)) =
      while_iter q_pending (rr_body 0) 1 spinning"
    by (subst while_iter.simps) (simp add: rr_zero_first maxIter_def)
  also have "\<dots> = Some (maxIter, spinning)"
    by (rule while_iter_stuck [where body = "rr_body 0" and pending = q_pending and s = spinning])
       (simp_all add: rr_zero_spins spinning_pending maxIter_def)
  finally show ?thesis .
qed

lemma zero_quantum_hits_ceiling: "hits_ceiling ''RR'' one_job zero_quantum"
  by (simp add: hits_ceiling_def zero_quantum_def nullish_def rr_zero_loop cut_short_def
      spinning_pending)

lemma zero_quantum_result: "simulate ''RR'' one_job zero_quantum = Inr (finish spinning)"
  by (simp add: simulate_def zero_quantum_def nullish_def simulateRR_def rr_zero_loop
      outcome_def)

lemma finish_spinning:
  "finish spinning =
     \<lparr>out_trace = [], historySnapshots = [],
      stats =
        \<lparr>avgWaiting = Num (- 1), avgTurnaround = Num 0, makespan = Num 0, throughput = Num 1,
         processes =
           [\<lparr>pid = ''P1'', arrival = 0, burst = 1, priority = 0, remaining = 1,
             startTime = Some 0, completionTime = Some 0, enqueued = True,
             turnaround = 0, waiting = - 1\<rparr>]\<rparr>\<rparr>"
  by (simp add: finish_def finalize_def computeStats_def Math_max_def Math_min_def
      js_max2_def js_min2_def Number_nullable_def Let_def spinning_def)

text \<open>
  C4 as the specification states it: when the loop reaches the ceiling of 200000
  iterations, \<open>simulate\<close> fails with \<open>InternalLimitExceeded\<close>. With Round Robin, quantum 0
  and one process of burst 1, every iteration puts the process back unexecuted; the loop
  stops at the ceiling with the process pending, and \<open>simulate\<close> returns: the trace is empty
  and the process is reported complete at time 0, with one unit of work left and a waiting
  time of -1.
\<close>

theorem C4_ceiling_counterexample:
  "hits_ceiling ''RR'' one_job zero_quantum \<and>
   simulate ''RR'' one_job zero_quantum =
     Inr \<lparr>out_trace = [], historySnapshots = [],
          stats =
            \<lparr>avgWaiting = Num (- 1), avgTurnaround = Num 0, makespan = Num 0,
             throughput = Num 1,
             processes =
               [\<lparr>pid = ''P1'', arrival = 0, burst = 1, priority = 0, remaining = 1,
                 startTime = Some 0, completionTime = Some 0, enqueued = True,
                 turnaround = 0, waiting = - 1\<rparr>]\<rparr>\<rparr>"
  using zero_quantum_hits_ceiling zero_quantum_result finish_spinning by simp

lemma l_run_exit:
  "i < length (procs s) \<Longrightarrow>
   remaining (procs (l_run i x s) ! i) \<le> 0 \<and> length (procs (l_run i x s)) = length (procs s)"
proof (induction i x s rule: l_run.induct)
  case (1 i x s)
  show ?case
  proof (cases "0 < remaining (procs s ! i)")
    case False
    with "1.prems" have "l_run i x s = s" by (subst l_run.simps) auto
    with False show ?thesis by simp
  next
    case True
    let ?s1 = "run_unit enqueueArrivalsL ready_pids i x s"
    have len: "length (procs ?s1) = length (procs s)" by (simp add: run_unit_length)
    have "l_run i x s = l_run i x ?s1"
      using True "1.prems" by (subst l_run.simps) simp
    moreover have "remaining (procs (l_run i x ?s1) ! i) \<le> 0 \<and>
        length (procs (l_run i x ?s1)) = length (procs ?s1)"
      using True "1.prems" len by (intro "1.IH") simp_all
    ultimately show ?thesis using len by simp
  qed
qed

lemma l_idle_rule:
  assumes "preserved enqueueArrivalsL F" "F s" "l_idle s = Continue s' \<or> l_idle s = Break s'"
  shows "F s'"
proof (cases "find (\<lambda>p. \<not> enqueued p \<and> 0 < remaining p) (procs s)")
  case None
  with assms show ?thesis by (simp add: l_idle_def)
next
  case (Some nxt)
  with assms(3) have "s' = enqueueArrivalsL (idle_until [] (arrival nxt) s)"
    by (simp add: l_idle_def)
  then show ?thesis
    using assms(1,2) by (simp add: preserved_enq preserved_idle_until)
qed

lemma l_turn_rule:
  assumes pm: "preserved enqueueArrivalsL M"
    and fin: "\<And>s. M s \<Longrightarrow> i < length (procs s) \<Longrightarrow> remaining (procs s ! i) \<le> 0 \<Longrightarrow>
        F (mark_done i s)"
    and "M s" "i < length (procs s)"
  shows "F (l_turn i s)"
proof -
  let ?s1 = "mark_start i s"
  let ?s2 = "l_run i (pid (procs s ! i)) ?s1"
  have m2: "M ?s2"
    by (intro preserved_l_run [OF pm] preserved_mark_start [OF pm] assms)
  have "remaining (procs ?s2 ! i) \<le> 0" "length (procs ?s2) = length (procs s)"
    using l_run_exit [of i ?s1 "pid (procs s ! i)"] assms(4) by simp_all
  with m2 assms(4) have "F (mark_done i ?s2)" by (intro fin) simp_all
  then show ?thesis by (simp add: l_turn_def)
qed

lemma l_body_rule:
  assumes pf: "preserved enqueueArrivalsL F" and pm: "preserved enqueueArrivalsL M"
    and pop: "\<And>s i rest. F s \<Longrightarrow> i \<in> set (readyList s) \<Longrightarrow>
        set rest \<subseteq> set (readyList s) \<Longrightarrow> M (s\<lparr>readyList := rest\<rparr>) \<and> i < length (procs s)"
    and fin: "\<And>s i. M s \<Longrightarrow> i < length (procs s) \<Longrightarrow> remaining (procs s ! i) \<le> 0 \<Longrightarrow>
        F (mark_done i s)"
    and "F s" and "l_body cmp s = Continue s' \<or> l_body cmp s = Break s'"
  shows "F s'"
proof -
  define s1 where "s1 = enqueueArrivalsL s"
  have f1: "F s1" unfolding s1_def by (rule preserved_enq [OF pf]) fact
  have body: "l_body cmp s =
    (if readyList s1 = [] then l_idle s1
     else (case sort_by (\<lambda>a b. cmp (procs s1 ! a) (procs s1 ! b)) (readyList s1) of
             [] \<Rightarrow> Throw
           | i # rest \<Rightarrow> Continue (l_turn i (s1\<lparr>readyList := rest\<rparr>))))"
    by (simp only: l_body_def Let_def s1_def)
  show ?thesis
  proof (cases "readyList s1 = []")
    case True
    with assms(6) body have "l_idle s1 = Continue s' \<or> l_idle s1 = Break s'" by simp
    with pf f1 show ?thesis by (rule l_idle_rule)
  next
    case False
    show ?thesis
    proof (cases "sort_by (\<lambda>a b. cmp (procs s1 ! a) (procs s1 ! b)) (readyList s1)")
      case Nil
      with assms(6) False body show ?thesis by simp
    next
      case (Cons i rest)
      let ?s2 = "s1\<lparr>readyList := rest\<rparr>"
      from assms(6) False Cons body have s': "s' = l_turn i ?s2" by simp
      have "set (i # rest) = set (readyList s1)"
        unfolding Cons [symmetric] by simp
      then have "i \<in> set (readyList s1)" "set rest \<subseteq> set (readyList s1)" by auto
      from pop [OF f1 this] have "M ?s2" "i < length (procs ?s2)" by simp_all
      then have "F (l_turn i ?s2)"
        by (intro l_turn_rule [where M = M and F = F] pm fin)
      with s' show ?thesis by simp
    qed
  qed
qed

section \<open>Completion times\<close>

lemma preserved_finished_ok: "preserved enq finished_ok"
  if "\<And>s. procs (enq s) = admit (time s) (procs s)"
proof -
  have "finished_ok (upd_proc i f s)" if "finished_ok s" "gentle f" for i f and s :: "'a sim_scheme"
  proof -
    have "remaining p \<le> 0" if "p \<in> set ((procs s)[i := f (procs s ! i)])"
      "completionTime p \<noteq> None" for p
    proof (cases "p \<in> set (procs s)")
      case True
      with \<open>finished_ok s\<close> that(2) show ?thesis by (simp add: finished_ok_def)
    next
      case False
      with that(1) set_update_subset_insert [of "procs s" i "f (procs s ! i)"]
      have p: "p = f (procs s ! i)" by auto
      with False have "i < length (procs s)"
        by (metis list_update_beyond not_le_imp_less that(1))
      then have q: "procs s ! i \<in> set (procs s)" by simp
      from \<open>gentle f\<close> have g: "completionTime (f (procs s ! i)) = completionTime (procs s ! i)"
        "remaining (f (procs s ! i)) \<le> remaining (procs s ! i)"
        by (simp_all add: gentle_def)
      from that(2) p g(1) have "completionTime (procs s ! i) \<noteq> None" by simp
      with \<open>finished_ok s\<close> q have "remaining (procs s ! i) \<le> 0"
        unfolding finished_ok_def by blast
      with g(2) p show ?thesis by simp
    qed
    then show ?thesis by (simp add: finished_ok_def)
  qed
  moreover have "finished_ok (enq s)" if "finished_ok s" for s
    using that \<open>\<And>s. procs (enq s) = admit (time s) (procs s)\<close>
    by (auto simp: finished_ok_def admit_def)
  moreover have "finished_ok (emit c r e s)" if "finished_ok s" for c r e and s :: "'a sim_scheme"
    using that by (simp add: finished_ok_def)
  ultimately show ?thesis
    unfolding preserved_def by blast
qed

lemma preserved_conj:
  "preserved enq P \<Longrightarrow> preserved enq Q \<Longrightarrow> preserved enq (\<lambda>s. P s \<and> Q s)"
  unfolding preserved_def by blast

lemma preserved_l_wf: "preserved enqueueArrivalsL l_wf"
  unfolding preserved_def l_wf_def by auto

lemma finished_ok_mark_done:
  assumes "finished_ok s" "i < length (procs s)" "remaining (procs s ! i) \<le> 0"
  shows "finished_ok (mark_done i s)"
proof -
  have "remaining p \<le> 0"
    if "p \<in> set ((procs s)[i := (procs s ! i)\<lparr>completionTime := Some (time s)\<rparr>])"
      "completionTime p \<noteq> None" for p
  proof (cases "p \<in> set (procs s)")
    case True
    with assms(1) that(2) show ?thesis by (simp add: finished_ok_def)
  next
    case False
    with that(1)
      set_update_subset_insert [of "procs s" i "(procs s ! i)\<lparr>completionTime := Some (time s)\<rparr>"]
    have "p = (procs s ! i)\<lparr>completionTime := Some (time s)\<rparr>" by auto
    with assms(3) show ?thesis by simp
  qed
  then show ?thesis by (simp add: finished_ok_def mark_done_def)
qed

lemma finished_ok_queue [simp]:
  "finished_ok (s\<lparr>readyQueue := q\<rparr>) = finished_ok s"
  "finished_ok (l\<lparr>readyList := n\<rparr>) = finished_ok l"
  "finished_ok (m\<lparr>fgQueue := q\<rparr>) = finished_ok m"
  "finished_ok (m\<lparr>bgQueue := q\<rparr>) = finished_ok m"
  by (simp_all add: finished_ok_def)

lemma rr_body_finished_ok:
  "finished_ok s \<Longrightarrow> rr_body qu s = Continue s' \<or> rr_body qu s = Break s' \<Longrightarrow> finished_ok s'"
  by (rule rr_body_rule [where F = finished_ok and M = "\<lambda>x. finished_ok" and s = s and qu = qu])
     (auto intro: preserved_finished_ok finished_ok_mark_done)

lemma fcfs_body_finished_ok:
  "finished_ok s \<Longrightarrow> fcfs_body s = Continue s' \<or> fcfs_body s = Break s' \<Longrightarrow> finished_ok s'"
  by (rule fcfs_body_rule [where F = finished_ok and M = "\<lambda>x. finished_ok" and s = s])
     (auto intro: preserved_finished_ok finished_ok_mark_done)

lemma mlq_body_finished_ok:
  "finished_ok s \<Longrightarrow> mlq_body fq bq s = Continue s' \<or> mlq_body fq bq s = Break s' \<Longrightarrow>
   finished_ok s'"
  by (rule mlq_body_rule [where F = finished_ok and Mf = "\<lambda>x. finished_ok"
        and Mb = "\<lambda>x. finished_ok" and s = s and fq = fq and bq = bq])
     (auto intro: preserved_finished_ok finished_ok_mark_done)

lemma l_body_finished_ok:
  assumes "finished_ok s \<and> l_wf s" "l_body cmp s = Continue s' \<or> l_body cmp s = Break s'"
  shows "finished_ok s' \<and> l_wf s'"
proof -
  have pr: "preserved enqueueArrivalsL (\<lambda>s. finished_ok s \<and> l_wf s)"
    by (intro preserved_conj preserved_finished_ok preserved_l_wf) simp
  show ?thesis
  proof (rule l_body_rule [where F = "\<lambda>s. finished_ok s \<and> l_wf s"
        and M = "\<lambda>s. finished_ok s \<and> l_wf s" and s = s and cmp = cmp, OF pr pr _ _ assms])
    fix t :: lstate and i rest
    assume "finished_ok t \<and> l_wf t" "i \<in> set (readyList t)" "set rest \<subseteq> set (readyList t)"
    then show "(finished_ok (t\<lparr>readyList := rest\<rparr>) \<and> l_wf (t\<lparr>readyList := rest\<rparr>)) \<and>
        i < length (procs t)"
      by (auto simp: l_wf_def)
  next
    fix t :: lstate and i
    assume "finished_ok t \<and> l_wf t" "i < length (procs t)" "remaining (procs t ! i) \<le> 0"
    then show "finished_ok (mark_done i t) \<and> l_wf (mark_done i t)"
      by (simp add: finished_ok_mark_done l_wf_def)
  qed
qed

lemma spawned_finished_ok:
  "procs s = admit t ps \<Longrightarrow> set ps = spawn ` set ds \<Longrightarrow> finished_ok s"
  by (auto simp: finished_ok_def admit_def)

lemma q_init_finished_ok: "finished_ok (q_init ds)"
  by (rule spawned_finished_ok [where ps = "sort_by (\<lambda>a b. arrival a - arrival b) (map spawn ds)"])
     (simp_all add: q_init_def)

lemma l_init_finished_ok: "finished_ok (l_init ds) \<and> l_wf (l_init ds)"
proof
  show "finished_ok (l_init ds)"
    by (rule spawned_finished_ok [where ps = "map spawn ds"]) (simp_all add: l_init_def)
  show "l_wf (l_init ds)"
    by (simp add: l_wf_def l_init_def)
qed

lemma m_init_finished_ok: "finished_ok (m_init ds)"
  by (rule spawned_finished_ok [where ps = "sort_by (\<lambda>a b. arrival a - arrival b) (map spawn ds)"])
     (simp_all add: m_init_def)

lemma run_result_inv:
  assumes "outcome (while_iter pending body 0 s0) = Inr r"
    and "\<And>s s'. body s = Continue s' \<or> body s = Break s' \<Longrightarrow> evolve s s'"
    and "I s0" and "\<And>s s'. I s \<Longrightarrow> body s = Continue s' \<or> body s = Break s' \<Longrightarrow> I s'"
  obtains s where "evolve s0 s" "I s" "r = finish s"
proof -
  from outcome_Inr [OF assms(1)] obtain iter s
    where w: "while_iter pending body 0 s0 = Some (iter, s)" and r: "r = finish s"
    by blast
  have "evolve s0 s"
    by (rule while_iter_evolve [OF assms(2) w])
  moreover have "I s"
    by (rule while_iter_rule [where I = I, OF _ assms(3) w]) (rule assms(4))
  ultimately show ?thesis using r that by blast
qed

text \<open>Whatever the tag, the final state also has completion times only on processes with
  no work left.\<close>

lemma simulate_finished:
  assumes "simulate algorithm ps opts = Inr r"
  obtains (Q) s0 s :: qstate where
      "loaded (map normalize ps) s0" "evolve s0 s" "finished_ok s" "r = finish s"
  | (L) s0 s :: lstate where
      "loaded (map normalize ps) s0" "evolve s0 s" "finished_ok s" "r = finish s"
  | (M) s0 s :: mstate where
      "loaded (map normalize ps) s0" "evolve s0 s" "finished_ok s" "r = finish s"
proof -
  let ?ds = "map normalize ps"
  consider
      (rr) qu where "simulateRR ?ds qu = Inr r"
    | (fcfs) "simulateFCFS ?ds = Inr r"
    | (sjf) "simulateSJF ?ds = Inr r"
    | (prio) "simulatePriority ?ds = Inr r"
    | (mlq) fq bq where "simulateMLQ ?ds fq bq = Inr r"
    using assms unfolding simulate_def Let_def by (auto split: if_splits)
  then show ?thesis
  proof cases
    case rr
    from rr [unfolded simulateRR_def] show ?thesis
      by (rule run_result_inv [where I = finished_ok])
         (auto intro: rr_body_evolve rr_body_finished_ok q_init_finished_ok Q [OF q_init_loaded])
  next
    case fcfs
    from fcfs [unfolded simulateFCFS_def] show ?thesis
      by (rule run_result_inv [where I = finished_ok])
         (auto intro: fcfs_body_evolve fcfs_body_finished_ok q_init_finished_ok
            Q [OF q_init_loaded])
  next
    case sjf
    from sjf [unfolded simulateSJF_def] show ?thesis
    proof (rule run_result_inv [where I = "\<lambda>s. finished_ok s \<and> l_wf s"])
      show "finished_ok (l_init ?ds) \<and> l_wf (l_init ?ds)" by (rule l_init_finished_ok)
    next
      fix s s' :: lstate
      assume "l_body sjf_cmp s = Continue s' \<or> l_body sjf_cmp s = Break s'"
      then show "evolve s s'" by (rule l_body_evolve)
    next
      fix s s' :: lstate
      assume "finished_ok s \<and> l_wf s"
        "l_body sjf_cmp s = Continue s' \<or> l_body sjf_cmp s = Break s'"
      then show "finished_ok s' \<and> l_wf s'" by (rule l_body_finished_ok)
    next
      fix s :: lstate
      assume "evolve (l_init ?ds) s" "finished_ok s \<and> l_wf s" "r = finish s"
      then show ?thesis by (intro L [OF l_init_loaded]) auto
    qed
  next
    case prio
    from prio [unfolded simulatePriority_def] show ?thesis
    proof (rule run_result_inv [where I = "\<lambda>s. finished_ok s \<and> l_wf s"])
      show "finished_ok (l_init ?ds) \<and> l_wf (l_init ?ds)" by (rule l_init_finished_ok)
    next
      fix s s' :: lstate
      assume "l_body priority_cmp s = Continue s' \<or> l_body priority_cmp s = Break s'"
      then show "evolve s s'" by (rule l_body_evolve)
    next
      fix s s' :: lstate
      assume "finished_ok s \<and> l_wf s"
        "l_body priority_cmp s = Continue s' \<or> l_body priority_cmp s = Break s'"
      then show "finished_ok s' \<and> l_wf s'" by (rule l_body_finished_ok)
    next
      fix s :: lstate
      assume "evolve (l_init ?ds) s" "finished_ok s \<and> l_wf s" "r = finish s"
      then show ?thesis by (intro L [OF l_init_loaded]) auto
    qed
  next
    case mlq
    from mlq [unfolded simulateMLQ_def] show ?thesis
      by (rule run_result_inv [where I = finished_ok])
         (auto intro: mlq_body_evolve mlq_body_finished_ok m_init_finished_ok
            M [OF m_init_loaded])
  qed
qed

lemma defaulted_finish:
  assumes "synced s" "finished_ok s" "r = finish s" "p \<in> set (processes (stats r))"
  shows "completionTime p \<noteq> None \<and>
    (0 < remaining p \<longrightarrow> completionTime p = Some (int (length (out_trace r))))"
proof -
  have "processes (stats r) = map (finalize (time s)) (procs s)"
    unfolding assms(3) by (simp add: computeStats_def Let_def)
  with assms(4) obtain q where q: "q \<in> set (procs s)" "p = finalize (time s) q"
    by auto
  have t: "time s = int (length (out_trace r))"
    using assms(1) unfolding assms(3) by (simp add: synced_def)
  have "completionTime q = None" if "0 < remaining q"
    using assms(2) q(1) that unfolding finished_ok_def by fastforce
  with q(2) t show ?thesis by simp
qed

text \<open>
  C4, amended: for every input on which the simulation loop reaches the iteration ceiling
  (200000 iterations with work still pending), \<open>simulate\<close> does not fail: it returns the
  trace and snapshots emitted so far, and its statistics give every process a completion
  time, which for a process with work left is the defaulted one, the final simulated time
  (the length of the trace).
\<close>

theorem C4_ceiling_returns_defaults:
  assumes "hits_ceiling algorithm ps opts"
  shows "\<exists>r. simulate algorithm ps opts = Inr r \<and>
     (\<forall>p \<in> set (processes (stats r)).
        completionTime p \<noteq> None \<and>
        (0 < remaining p \<longrightarrow> completionTime p = Some (int (length (out_trace r)))))"
proof -
  from simulate_returns obtain r where r: "simulate algorithm ps opts = Inr r" by blast
  have "completionTime p \<noteq> None \<and>
      (0 < remaining p \<longrightarrow> completionTime p = Some (int (length (out_trace r))))"
    if "p \<in> set (processes (stats r))" for p
    using r
  proof (cases rule: simulate_finished)
    case (Q s0 s)
    from loaded_evolve(1) [OF Q(1,2)] Q(3,4) that show ?thesis by (rule defaulted_finish)
  next
    case (L s0 s)
    from loaded_evolve(1) [OF L(1,2)] L(3,4) that show ?thesis by (rule defaulted_finish)
  next
    case (M s0 s)
    from loaded_evolve(1) [OF M(1,2)] M(3,4) that show ?thesis by (rule defaulted_finish)
  qed
  with r show ?thesis by blast
qed

theorem C4_ceiling_returns_defaults_witness:
  "hits_ceiling ''RR'' one_job zero_quantum \<and>
   (\<exists>r. simulate ''RR'' one_job zero_quantum = Inr r \<and> out_trace r = [] \<and>
        map remaining (processes (stats r)) = [1] \<and>
        (\<forall>p \<in> set (processes (stats r)). completionTime p = Some 0))"
proof -
  from C4_ceiling_returns_defaults [OF zero_quantum_hits_ceiling]
  obtain r where r: "simulate ''RR'' one_job zero_quantum = Inr r"
    and d: "\<And>p. p \<in> set (processes (stats r)) \<Longrightarrow>
        completionTime p \<noteq> None \<and>
        (0 < remaining p \<longrightarrow> completionTime p = Some (int (length (out_trace r))))"
    by blast
  from r have e: "out_trace r = []" "map remaining (processes (stats r)) = [1]"
    unfolding zero_quantum_result by (auto simp: finish_spinning)
  have c: "\<forall>p \<in> set (processes (stats r)). completionTime p = Some 0"
  proof
    fix p assume that: "p \<in> set (processes (stats r))"
    from that e(2) have "remaining p = 1" by (metis (no_types, lifting) image_eqI list.set_map
          list.simps(15) empty_set singletonD)
    with d [OF that] e(1) show "completionTime p = Some 0" by simp
  qed
  have "simulate ''RR'' one_job zero_quantum = Inr r \<and> out_trace r = [] \<and>
        map remaining (processes (stats r)) = [1] \<and>
        (\<forall>p \<in> set (processes (stats r)). completionTime p = Some 0)"
    using r e c by simp
  then show ?thesis
    using zero_quantum_hits_ceiling by (intro conjI exI [of _ r]) simp_all
qed

section \<open>Foreground before background\<close>

lemma loop_head_while:
  "loop_head pending body s0 n s \<Longrightarrow>
   while_iter pending body 0 s0 = while_iter pending body n s"
proof (induction rule: loop_head.induct)
  case loop_start
  show ?case by simp
next
  case (loop_next n s s')
  have "while_iter pending body n s = while_iter pending body (Suc n) s'"
    using loop_next.hyps by (subst while_iter.simps) simp
  with loop_next.IH show ?case by simp
qed

lemma loop_head_inv:
  assumes "I s0" and "\<And>s s'. I s \<Longrightarrow> body s = Continue s' \<Longrightarrow> I s'"
  shows "loop_head pending body s0 n s \<Longrightarrow> I s"
  by (induction rule: loop_head.induct) (auto intro: assms)

lemma set_update_cases:
  assumes "p \<in> set (xs[i := y])"
  obtains "p \<in> set xs" | "i < length xs" "p = y"
proof (cases "p \<in> set xs")
  case True
  then show ?thesis by (rule that(1))
next
  case False
  with assms set_update_subset_insert [of xs i y] have p: "p = y" by auto
  with False assms have "i < length xs"
    by (metis list_update_beyond not_le_imp_less)
  then show ?thesis using p by (rule that(2))
qed

lemma preserved_fg_queued: "preserved enqueueArrivalsM (fg_queued X)"
proof -
  have "fg_queued X (upd_proc i f s)" if "fg_queued X s" "gentle f" for i f s
  proof -
    have "pid p \<in> set (fgQueue s)"
      if p: "p \<in> set ((procs s)[i := f (procs s ! i)])" "priority p = 0" "enqueued p"
        "0 < remaining p" "pid p \<notin> X" for p
      using p(1)
    proof (cases rule: set_update_cases)
      case 1
      with \<open>fg_queued X s\<close> p show ?thesis by (simp add: fg_queued_def)
    next
      case 2
      let ?q = "procs s ! i"
      from \<open>gentle f\<close> have "pid (f ?q) = pid ?q" "priority (f ?q) = priority ?q"
        "enqueued (f ?q) = enqueued ?q" "remaining (f ?q) \<le> remaining ?q"
        by (simp_all add: gentle_def)
      with p 2 have "priority ?q = 0 \<and> enqueued ?q \<and> 0 < remaining ?q \<and> pid ?q \<notin> X"
        and e: "pid p = pid ?q"
        by auto
      moreover from 2 have "?q \<in> set (procs s)" by simp
      ultimately have "pid ?q \<in> set (fgQueue s)"
        using \<open>fg_queued X s\<close> unfolding fg_queued_def by blast
      with e show ?thesis by simp
    qed
    moreover have "map (\<lambda>p. (pid p, priority p)) ((procs s)[i := f (procs s ! i)]) =
        map (\<lambda>p. (pid p, priority p)) (procs s)"
      using \<open>gentle f\<close> by (intro map_upd_same) (simp add: gentle_def)
    ultimately show ?thesis
      using that unfolding fg_queued_def
      by (simp only: upd_proc_sel queue_sel gentle_maps(1)) blast
  qed
  moreover have "fg_queued X (enqueueArrivalsM s)" if "fg_queued X s" for s
  proof -
    have "pid p \<in> set (fgQueue (enqueueArrivalsM s))"
      if "p \<in> set (admit (time s) (procs s))" "priority p = 0" "enqueued p"
        "0 < remaining p" "pid p \<notin> X" for p
      using that \<open>fg_queued X s\<close>
      by (auto simp: fg_queued_def admit_def split: if_splits)
    moreover have "(y, 0) \<in> set (map (\<lambda>p. (pid p, priority p)) (procs s))"
      if "y \<in> set (fgQueue (enqueueArrivalsM s)) \<union> X" for y
      using that \<open>fg_queued X s\<close> by (auto simp: fg_queued_def)
    moreover have "map (\<lambda>p. (pid p, priority p)) (admit (time s) (procs s)) =
        map (\<lambda>p. (pid p, priority p)) (procs s)"
      by (simp add: admit_def)
    ultimately show ?thesis
      using that unfolding fg_queued_def
      by (simp only: enqueueArrivalsM_sel(1) admit_maps) blast
  qed
  moreover have "fg_queued X (emit c r e s)" if "fg_queued X s" for c r e s
    using that by (simp add: fg_queued_def)
  ultimately show ?thesis
    unfolding preserved_def by blast
qed

lemma fg_queued_pop:
  "fg_queued {} s \<Longrightarrow> fgQueue s = x # rest \<Longrightarrow> fg_queued {x} (s\<lparr>fgQueue := rest\<rparr>)"
  by (auto simp: fg_queued_def)

lemma fg_queued_push: "fg_queued {x} s \<Longrightarrow> fg_queued {} (s\<lparr>fgQueue := fgQueue s @ [x]\<rparr>)"
  by (auto simp: fg_queued_def)

lemma fg_queued_bg [simp]: "fg_queued X (s\<lparr>bgQueue := q\<rparr>) = fg_queued X s"
  by (simp add: fg_queued_def)

lemma distinct_pid_nth:
  "distinct (map pid xs) \<Longrightarrow> i < length xs \<Longrightarrow> p \<in> set xs \<Longrightarrow> pid p = pid (xs ! i) \<Longrightarrow>
   p = xs ! i"
  by (metis distinct_map inj_onD nth_mem)

lemma fg_queued_done:
  assumes "fg_queued X s" "X \<subseteq> {x}" "i < length (procs s)" "pid (procs s ! i) = x"
    "remaining (procs s ! i) \<le> 0 \<or> X = {}"
  shows "fg_queued {} (mark_done i s)"
proof -
  let ?q = "procs s ! i"
  have "pid p \<in> set (fgQueue s)"
    if p: "p \<in> set ((procs s)[i := ?q\<lparr>completionTime := Some (time s)\<rparr>])" "priority p = 0"
      "enqueued p" "0 < remaining p" for p
    using p(1)
  proof (cases rule: set_update_cases)
    case 1
    show ?thesis
    proof (cases "pid p \<in> X")
      case False
      with 1 assms(1) p show ?thesis by (simp add: fg_queued_def)
    next
      case True
      with assms(2,4) have "pid p = pid ?q" by auto
      with assms(1,3) 1 have "p = ?q"
        by (intro distinct_pid_nth) (simp_all add: fg_queued_def)
      with assms(5) p(4) True show ?thesis by auto
    qed
  next
    case 2
    then have q: "priority ?q = 0" "enqueued ?q" "0 < remaining ?q" "pid p = pid ?q"
      using p by simp_all
    with assms(5) have "X = {}" by auto
    moreover from 2 have "?q \<in> set (procs s)" by simp
    ultimately have "pid ?q \<in> set (fgQueue s)"
      using assms(1) q unfolding fg_queued_def by blast
    with q show ?thesis by simp
  qed
  moreover have "map (\<lambda>p. (pid p, priority p))
        ((procs s)[i := ?q\<lparr>completionTime := Some (time s)\<rparr>]) =
      map (\<lambda>p. (pid p, priority p)) (procs s)"
    by (intro map_upd_same) simp
  ultimately show ?thesis
    using assms(1) by (simp add: fg_queued_def mark_done_def map_upd_same)
qed

lemma mlq_body_fg_queued:
  "fg_queued {} s \<Longrightarrow> mlq_body fq bq s = Continue s' \<or> mlq_body fq bq s = Break s' \<Longrightarrow>
   fg_queued {} s'"
  by (rule mlq_body_rule [where F = "fg_queued {}" and Mf = "\<lambda>x. fg_queued {x}"
        and Mb = "\<lambda>x. fg_queued {}" and s = s and fq = fq and bq = bq])
     (auto intro: preserved_fg_queued fg_queued_pop fg_queued_push
        fg_queued_done [where X = "{}"] fg_queued_done [where X = "{x}" for x])

lemma m_init_fg_queued:
  assumes "distinct (map pid ds)"
  shows "fg_queued {} (m_init ds)"
proof -
  let ?s = "\<lparr>procs = sort_by (\<lambda>a b. arrival a - arrival b) (map spawn ds), time = 0,
      history = [], trace = [], fgQueue = [], bgQueue = []\<rparr>"
  have "map pid (map spawn ds) = map pid ds" by simp
  with assms have "distinct (map pid (map spawn ds))" by (simp only:)
  then have "fg_queued {} ?s"
    by (auto simp: fg_queued_def)
  then show ?thesis
    unfolding m_init_def by (rule preserved_enq [OF preserved_fg_queued])
qed

lemma mlq_loop_head_inv:
  assumes "distinct (map pid ds)" "loop_head m_pending (mlq_body fq bq) (m_init ds) n s"
  shows "fg_queued {} s \<and> m_wf s"
proof (rule loop_head_inv [where I = "\<lambda>s. fg_queued {} s \<and> m_wf s", OF _ _ assms(2)])
  show "fg_queued {} (m_init ds) \<and> m_wf (m_init ds)"
    using m_init_fg_queued [OF assms(1)] m_init_wf by simp
next
  fix t t' assume "fg_queued {} t \<and> m_wf t" "mlq_body fq bq t = Continue t'"
  then show "fg_queued {} t' \<and> m_wf t'"
    using mlq_body_fg_queued [of t fq bq t'] mlq_body_m_wf [of t fq bq t'] by simp
qed

text \<open>
  C7: in every MLQ simulation (over processes with unique identifiers), at every selection
  point, that is in every state \<open>s\<close> in which the loop starts an iteration, once the
  iteration's admission has run: if at least one foreground process (priority 0) is admitted
  and has remaining work, the foreground queue is not empty, and the iteration takes the
  identifier \<open>x\<close> at its head, finds the process with that identifier, which is a foreground
  process, and gives it a foreground turn. So no process of the background queue is selected
  then.
\<close>

theorem C7_foreground_first:
  assumes "distinct (map in_pid ps)"
    and "loop_head m_pending (mlq_body fq bq) (m_init (map normalize ps)) n s"
    and "p \<in> set (procs (enqueueArrivalsM s))" "priority p = 0" "enqueued p" "0 < remaining p"
  shows "\<exists>x rest i.
     fgQueue (enqueueArrivalsM s) = x # rest \<and>
     findIndex (\<lambda>q. pid q = x) (procs (enqueueArrivalsM s)) = Some i \<and>
     priority (procs (enqueueArrivalsM s) ! i) = 0 \<and>
     mlq_body fq bq s =
       Continue (mlq_fg_turn fq x i ((enqueueArrivalsM s)\<lparr>fgQueue := rest\<rparr>))"
proof -
  have "map pid (map normalize ps) = map in_pid ps"
    by (simp add: normalize_def)
  with assms(1) have "distinct (map pid (map normalize ps))" by (simp only:)
  from mlq_loop_head_inv [OF this assms(2)] have "fg_queued {} s" "m_wf s" by simp_all
  define s1 where "s1 = enqueueArrivalsM s"
  have inv: "fg_queued {} s1" "m_wf s1"
    unfolding s1_def
    by (rule preserved_enq [OF preserved_fg_queued] preserved_enq [OF preserved_m_wf]; fact)+
  from assms(3-6) inv(1) have "pid p \<in> set (fgQueue s1)"
    unfolding s1_def [symmetric] fg_queued_def by blast
  then obtain x rest where q: "fgQueue s1 = x # rest"
    by (cases "fgQueue s1") auto
  with inv(2) have "x \<in> set (map pid (procs s1))"
    by (simp add: m_wf_def)
  from findIndex_mem [OF this] obtain i
    where i: "findIndex (\<lambda>q. pid q = x) (procs s1) = Some i" by blast
  from findIndex_Some [OF i] have i': "i < length (procs s1)" "pid (procs s1 ! i) = x"
    by simp_all
  from inv(1) q have "(x, 0) \<in> set (map (\<lambda>p. (pid p, priority p)) (procs s1))"
    by (simp add: fg_queued_def)
  then obtain q' where q': "q' \<in> set (procs s1)" "pid q' = x" "priority q' = 0"
    by auto
  from inv(1) i' q' have "q' = procs s1 ! i"
    by (intro distinct_pid_nth) (simp_all add: fg_queued_def)
  with q' have pr: "priority (procs s1 ! i) = 0" by simp
  have "mlq_body fq bq s = Continue (mlq_fg_turn fq x i (s1\<lparr>fgQueue := rest\<rparr>))"
  proof (cases rule: mlq_body_cases [where s = s and fq = fq and bq = bq])
    case (idle t)
    with q s1_def show ?thesis by simp
  next
    case (throw t)
    from throw(1) have t: "t = s1" by (simp add: s1_def)
    from throw(3) inv(2) obtain y where "y \<in> set (map pid (procs s1))"
      "findIndex (\<lambda>p. pid p = y) (procs s1) = None"
      unfolding t m_wf_def by blast
    with findIndex_mem [of y pid "procs s1"] show ?thesis by simp
  next
    case (fg t y rest' j)
    from fg(1) have t: "t = s1" by (simp add: s1_def)
    from fg(2,3,4) q i show ?thesis unfolding t by simp
  next
    case (bg t y rest' j)
    from bg(1) have t: "t = s1" by (simp add: s1_def)
    from bg(2) q show ?thesis unfolding t by simp
  qed
  with q i pr show ?thesis
    unfolding s1_def by blast
qed

lemma fg_bg_init:
  "m_init (map normalize fg_bg_jobs) =
     \<lparr>procs =
        [\<lparr>pid = ''B'', arrival = 0, burst = 2, priority = 1, remaining = 2,
          startTime = None, completionTime = None, enqueued = True\<rparr>,
         \<lparr>pid = ''F'', arrival = 0, burst = 1, priority = 0, remaining = 1,
          startTime = None, completionTime = None, enqueued = True\<rparr>],
      time = 0, history = [], trace = [], fgQueue = [''F''], bgQueue = [''B'']\<rparr>"
  by (simp add: sim_eval mlq_eval fg_bg_jobs_def)

theorem C7_foreground_first_witness:
  "distinct (map in_pid fg_bg_jobs) \<and>
   loop_head m_pending (mlq_body 2 (Some 4)) (m_init (map normalize fg_bg_jobs)) 0
     (m_init (map normalize fg_bg_jobs)) \<and>
   (\<exists>p \<in> set (procs (enqueueArrivalsM (m_init (map normalize fg_bg_jobs)))).
      priority p = 0 \<and> enqueued p \<and> 0 < remaining p) \<and>
   (\<exists>x rest i.
      fgQueue (enqueueArrivalsM (m_init (map normalize fg_bg_jobs))) = x # rest \<and>
      findIndex (\<lambda>q. pid q = x) (procs (enqueueArrivalsM (m_init (map normalize fg_bg_jobs))))
        = Some i \<and>
      priority (procs (enqueueArrivalsM (m_init (map normalize fg_bg_jobs))) ! i) = 0 \<and>
      mlq_body 2 (Some 4) (m_init (map normalize fg_bg_jobs)) =
        Continue (mlq_fg_turn 2 x i
          ((enqueueArrivalsM (m_init (map normalize fg_bg_jobs)))\<lparr>fgQueue := rest\<rparr>)))"
proof -
  let ?s = "m_init (map normalize fg_bg_jobs)"
  let ?f = "\<lparr>pid = ''F'', arrival = 0, burst = 1, priority = 0, remaining = 1,
          startTime = None, completionTime = None, enqueued = True\<rparr>"
  have h1: "distinct (map in_pid fg_bg_jobs)" by (simp add: fg_bg_jobs_def)
  have h2: "loop_head m_pending (mlq_body 2 (Some 4)) ?s 0 ?s" by (rule loop_start)
  have h3: "?f \<in> set (procs (enqueueArrivalsM ?s))" "priority ?f = 0" "enqueued ?f"
    "0 < remaining ?f"
    by (simp_all add: fg_bg_init admit_def due_def)
  from h3 have "\<exists>p \<in> set (procs (enqueueArrivalsM ?s)).
      priority p = 0 \<and> enqueued p \<and> 0 < remaining p"
    by blast
  with h1 h2 C7_foreground_first [OF h1 h2 h3] show ?thesis by blast
qed

section \<open>A Round Robin turn\<close>

lemma preserved_q_queued: "preserved enqueueArrivals (q_queued X)"
proof -
  have "q_queued X (upd_proc i f s)" if "q_queued X s" "gentle f" for i f s
  proof -
    have "pid p \<in> set (readyQueue s)"
      if p: "p \<in> set ((procs s)[i := f (procs s ! i)])" "enqueued p"
        "0 < remaining p" "pid p \<notin> X" for p
      using p(1)
    proof (cases rule: set_update_cases)
      case 1
      with \<open>q_queued X s\<close> p show ?thesis by (simp add: q_queued_def)
    next
      case 2
      let ?q = "procs s ! i"
      from \<open>gentle f\<close> have "pid (f ?q) = pid ?q"
        "enqueued (f ?q) = enqueued ?q" "remaining (f ?q) \<le> remaining ?q"
        by (simp_all add: gentle_def)
      with p 2 have "enqueued ?q \<and> 0 < remaining ?q \<and> pid ?q \<notin> X"
        and e: "pid p = pid ?q"
        by auto
      moreover from 2 have "?q \<in> set (procs s)" by simp
      ultimately have "pid ?q \<in> set (readyQueue s)"
        using \<open>q_queued X s\<close> unfolding q_queued_def by blast
      with e show ?thesis by simp
    qed
    then show ?thesis
      using that unfolding q_queued_def
      by (simp only: upd_proc_sel queue_sel gentle_maps(1)) blast
  qed
  moreover have "q_queued X (enqueueArrivals s)" if "q_queued X s" for s
  proof -
    have "pid p \<in> set (readyQueue (enqueueArrivals s))"
      if "p \<in> set (admit (time s) (procs s))" "enqueued p"
        "0 < remaining p" "pid p \<notin> X" for p
      using that \<open>q_queued X s\<close>
      by (auto simp: q_queued_def admit_def split: if_splits)
    then show ?thesis
      using that unfolding q_queued_def
      by (simp only: enqueueArrivals_sel(1) admit_maps) blast
  qed
  moreover have "q_queued X (emit c r e s)" if "q_queued X s" for c r e s
    using that by (simp add: q_queued_def)
  ultimately show ?thesis
    unfolding preserved_def by blast
qed

lemma q_queued_pop:
  "q_queued {} s \<Longrightarrow> readyQueue s = x # rest \<Longrightarrow> q_queued {x} (s\<lparr>readyQueue := rest\<rparr>)"
  by (auto simp: q_queued_def)

lemma q_queued_push: "q_queued {x} s \<Longrightarrow> q_queued {} (s\<lparr>readyQueue := readyQueue s @ [x]\<rparr>)"
  by (auto simp: q_queued_def)

lemma q_queued_done:
  assumes "q_queued {x} s" "i < length (procs s)" "pid (procs s ! i) = x"
    "remaining (procs s ! i) \<le> 0"
  shows "q_queued {} (mark_done i s)"
proof -
  let ?q = "procs s ! i"
  have "pid p \<in> set (readyQueue s)"
    if p: "p \<in> set ((procs s)[i := ?q\<lparr>completionTime := Some (time s)\<rparr>])"
      "enqueued p" "0 < remaining p" for p
    using p(1)
  proof (cases rule: set_update_cases)
    case 1
    show ?thesis
    proof (cases "pid p = x")
      case False
      with 1 assms(1) p show ?thesis by (simp add: q_queued_def)
    next
      case True
      with assms(1,2,3) 1 have "p = ?q"
        by (intro distinct_pid_nth) (simp_all add: q_queued_def)
      with assms(4) p(3) show ?thesis by simp
    qed
  next
    case 2
    with assms(4) p(3) show ?thesis by simp
  qed
  then show ?thesis
    using assms(1) by (simp add: q_queued_def mark_done_def map_upd_same)
qed

lemma rr_body_q_queued:
  "q_queued {} s \<Longrightarrow> rr_body qu s = Continue s' \<or> rr_body qu s = Break s' \<Longrightarrow> q_queued {} s'"
  by (rule rr_body_rule [where F = "q_queued {}" and M = "\<lambda>x. q_queued {x}" and s = s
        and qu = qu])
     (auto intro: preserved_q_queued q_queued_pop q_queued_push q_queued_done)

lemma q_init_q_queued:
  assumes "distinct (map pid ds)"
  shows "q_queued {} (q_init ds)"
proof -
  let ?s = "\<lparr>procs = sort_by (\<lambda>a b. arrival a - arrival b) (map spawn ds), time = 0,
      history = [], trace = [], readyQueue = []\<rparr>"
  have "map pid (map spawn ds) = map pid ds" by simp
  with assms have "distinct (map pid (map spawn ds))" by (simp only:)
  then have "q_queued {} ?s"
    by (auto simp: q_queued_def)
  then show ?thesis
    unfolding q_init_def by (rule preserved_enq [OF preserved_q_queued])
qed

lemma rr_loop_head_inv:
  assumes "distinct (map pid ds)" "loop_head q_pending (rr_body qu) (q_init ds) n s"
  shows "q_queued {} s \<and> q_wf s"
proof (rule loop_head_inv [where I = "\<lambda>s. q_queued {} s \<and> q_wf s", OF _ _ assms(2)])
  show "q_queued {} (q_init ds) \<and> q_wf (q_init ds)"
    using q_init_q_queued [OF assms(1)] q_init_wf by simp
next
  fix t t' assume "q_queued {} t \<and> q_wf t" "rr_body qu t = Continue t'"
  then show "q_queued {} t' \<and> q_wf t'"
    using rr_body_q_queued [of t qu t'] rr_body_q_wf [of t qu t'] by simp
qed

lemma caught_up_enqueueArrivals: "caught_up (enqueueArrivals s)"
  by (auto simp: caught_up_def admit_def due_def)

lemma caught_up_run_unit: "caught_up (run_unit enqueueArrivals rdy i x s)"
  by (simp add: run_unit_def Let_def caught_up_enqueueArrivals)

lemma caught_up_run_for:
  "caught_up s \<Longrightarrow> caught_up (run_for enqueueArrivals rdy i x n s)"
proof (induction n arbitrary: s)
  case 0
  then show ?case by simp
next
  case (Suc n)
  have "caught_up (run_for enqueueArrivals rdy i x n (run_unit enqueueArrivals rdy i x s))"
    by (rule Suc.IH) (rule caught_up_run_unit)
  then show ?case by simp
qed

lemma caught_up_mark_start: "caught_up s \<Longrightarrow> caught_up (mark_start i s)"
proof -
  assume c: "caught_up s"
  have "enqueued p"
    if p: "p \<in> set ((procs s)[i := (procs s ! i)\<lparr>startTime := Some (time s)\<rparr>])"
      "arrival p \<le> time s" "0 < remaining p" for p
    using p(1)
  proof (cases rule: set_update_cases)
    case 1
    with c p show ?thesis by (simp add: caught_up_def)
  next
    case 2
    then have "procs s ! i \<in> set (procs s)" by simp
    with c p 2 show ?thesis by (simp add: caught_up_def)
  qed
  with c show ?thesis
    by (simp add: caught_up_def mark_start_def)
qed

lemma caught_up_queue [simp]: "caught_up (s\<lparr>readyQueue := q\<rparr>) = caught_up s"
  by (simp add: caught_up_def)

lemma run_unit_exact:
  assumes "i < length (procs s)"
  shows "time (run_unit enqueueArrivals rdy i x s) = time s + 1"
    and "map remaining (procs (run_unit enqueueArrivals rdy i x s)) =
      (map remaining (procs s))[i := remaining (procs s ! i) - 1]"
    and "map ev_cpu (trace (run_unit enqueueArrivals rdy i x s)) =
      map ev_cpu (trace s) @ [Some x]"
    and "map ev_time (trace (run_unit enqueueArrivals rdy i x s)) =
      map ev_time (trace s) @ [time s]"
  using assms by (simp_all add: run_unit_def Let_def map_update)

lemma run_for_exact:
  "i < length (procs s) \<Longrightarrow>
   time (run_for enqueueArrivals rdy i x n s) = time s + int n \<and>
   map remaining (procs (run_for enqueueArrivals rdy i x n s)) =
     (map remaining (procs s))[i := remaining (procs s ! i) - int n] \<and>
   map ev_cpu (trace (run_for enqueueArrivals rdy i x n s)) =
     map ev_cpu (trace s) @ replicate n (Some x) \<and>
   map ev_time (trace (run_for enqueueArrivals rdy i x n s)) =
     map ev_time (trace s) @ map (\<lambda>k. time s + int k) [0..<n]"
proof (induction n arbitrary: s)
  case 0
  then have "(map remaining (procs s))[i := remaining (procs s ! i)] = map remaining (procs s)"
    by (simp add: list_update_same_conv)
  then show ?case by simp
next
  case (Suc n)
  let ?s1 = "run_unit enqueueArrivals rdy i x s"
  note u = run_unit_exact [OF Suc.prems, of rdy x]
  have len: "i < length (procs ?s1)"
    using Suc.prems by (simp add: run_unit_length)
  have r1: "remaining (procs ?s1 ! i) = remaining (procs s ! i) - 1"
    using Suc.prems by (simp add: run_unit_remaining)
  have t: "map (\<lambda>k. time s + int k) [0..<Suc n] =
      time s # map (\<lambda>k. time s + 1 + int k) [0..<n]"
    by (simp add: map_upt_Suc del: upt_Suc)
  from Suc.IH [OF len] show ?case
    unfolding run_for.simps u r1 t
    by (simp add: replicate_app_Cons_same algebra_simps)
qed

lemma preserved_grown: "preserved enqueueArrivals (\<lambda>t. \<exists>new. readyQueue t = q @ new)"
  unfolding preserved_def by auto

lemma mark_done_completion:
  "i < length (procs s) \<Longrightarrow> completionTime (procs (mark_done i s) ! i) = Some (time s)"
  by (simp add: mark_done_def)

lemma rr_turn_exact:
  fixes s :: qstate and qu :: int and i :: nat and x :: string
  assumes i: "i < length (procs s)" "pid (procs s ! i) = x"
    and r: "0 < remaining (procs s ! i)"
    and inv: "q_queued {x} s" "caught_up s"
  defines "u \<equiv> nat (min qu (remaining (procs s ! i)))"
  defines "s' \<equiv> rr_turn qu x i s"
  shows "time s' = time s + int u \<and>
     map ev_cpu (trace s') = map ev_cpu (trace s) @ replicate u (Some x) \<and>
     map ev_time (trace s') = map ev_time (trace s) @ map (\<lambda>k. time s + int k) [0..<u] \<and>
     i < length (procs s') \<and> pid (procs s' ! i) = x \<and>
     remaining (procs s' ! i) = remaining (procs s ! i) - int u \<and>
     (if remaining (procs s ! i) \<le> qu
      then completionTime (procs s' ! i) = Some (time s') \<and>
           (\<exists>new. readyQueue s' = readyQueue s @ new)
      else (\<exists>new. readyQueue s' = readyQueue s @ new @ [x] \<and>
              (\<forall>p \<in> set (procs s').
                 pid p \<noteq> x \<and> arrival p \<le> time s' \<and> 0 < remaining p \<longrightarrow>
                 pid p \<in> set (readyQueue s @ new))))"
proof -
  let ?r = "remaining (procs s ! i)"
  let ?s1 = "mark_start i s"
  define s2 where "s2 = run_for enqueueArrivals readyQueue i x u ?s1"
  have r1: "remaining (procs ?s1 ! i) = ?r"
    using i(1) by (rule mark_start_nth(2))
  have turn: "s' = (if remaining (procs s2 ! i) = 0 then mark_done i s2
      else s2\<lparr>readyQueue := readyQueue s2 @ [x]\<rparr>)"
    unfolding s'_def rr_turn_def Let_def s2_def u_def r1 ..
  have i1: "i < length (procs ?s1)" using i(1) by simp
  from run_for_exact [OF i1, of readyQueue x u]
  have e: "time s2 = time s + int u"
    "map remaining (procs s2) = (map remaining (procs s))[i := ?r - int u]"
    "map ev_cpu (trace s2) = map ev_cpu (trace s) @ replicate u (Some x)"
    "map ev_time (trace s2) = map ev_time (trace s) @ map (\<lambda>k. time s + int k) [0..<u]"
    unfolding s2_def [symmetric] r1 by simp_all
  have "evolve ?s1 s2"
    unfolding s2_def u_def r1 [symmetric] using i
    by (intro slice_evolve quiet_enqueueArrivals) (simp_all add: mark_start_nth)
  then have "evolve s s2"
    by (rule evolve_trans) (rule quiet_evolve [OF quiet_mark_start])
  from evolve_nth_pid [OF this i(1)] i(2)
  have i2: "i < length (procs s2)" "pid (procs s2 ! i) = x" by simp_all
  have "map remaining (procs s2) ! i = ?r - int u"
    unfolding e(2) using i(1) by simp
  then have r2: "remaining (procs s2 ! i) = ?r - int u"
    using i2(1) by simp
  have pm: "preserved enqueueArrivals (\<lambda>t. q_queued {x} t \<and> (\<exists>new. readyQueue t = readyQueue s @ new))"
    by (intro preserved_conj preserved_q_queued preserved_grown)
  have "q_queued {x} s \<and> (\<exists>new. readyQueue s = readyQueue s @ new)"
    using inv(1) by simp
  then have "q_queued {x} s2 \<and> (\<exists>new. readyQueue s2 = readyQueue s @ new)"
    unfolding s2_def
    by (intro preserved_run_for [OF pm] preserved_mark_start [OF pm])
  then obtain new where q2: "q_queued {x} s2" "readyQueue s2 = readyQueue s @ new"
    by blast
  have c2: "caught_up s2"
    unfolding s2_def by (intro caught_up_run_for caught_up_mark_start inv(2))
  show ?thesis
  proof (cases "?r \<le> qu")
    case True
    with r have "int u = ?r" by (simp add: u_def)
    with r2 turn have s': "s' = mark_done i s2" by simp
    have "completionTime (procs s' ! i) = Some (time s')"
      unfolding s' using i2(1) by (simp add: mark_done_completion)
    moreover have "remaining (procs s' ! i) = ?r - int u" "pid (procs s' ! i) = x"
      unfolding s' using r2 i2 map_eq_nthD [of remaining "procs (mark_done i s2)" "procs s2" i]
        map_eq_nthD [of pid "procs (mark_done i s2)" "procs s2" i]
      by simp_all
    ultimately show ?thesis
      using True e i2 q2(2) unfolding s' by simp
  next
    case False
    with r have "int u < ?r" by (simp add: u_def)
    with r2 turn have s': "s' = s2\<lparr>readyQueue := readyQueue s2 @ [x]\<rparr>" by simp
    have "pid p \<in> set (readyQueue s @ new)"
      if "p \<in> set (procs s2)" "pid p \<noteq> x" "arrival p \<le> time s2" "0 < remaining p" for p
    proof -
      from c2 that have "enqueued p" unfolding caught_up_def by blast
      with q2(1) that have "pid p \<in> set (readyQueue s2)"
        unfolding q_queued_def by blast
      with q2(2) show ?thesis by simp
    qed
    then have "readyQueue s' = readyQueue s @ new @ [x] \<and>
        (\<forall>p \<in> set (procs s').
           pid p \<noteq> x \<and> arrival p \<le> time s' \<and> 0 < remaining p \<longrightarrow>
           pid p \<in> set (readyQueue s @ new))"
      unfolding s' using q2(2) by simp
    then have "\<exists>new. readyQueue s' = readyQueue s @ new @ [x] \<and>
        (\<forall>p \<in> set (procs s').
           pid p \<noteq> x \<and> arrival p \<le> time s' \<and> 0 < remaining p \<longrightarrow>
           pid p \<in> set (readyQueue s @ new))"
      by blast
    moreover have "time s' = time s + int u"
      "map ev_cpu (trace s') = map ev_cpu (trace s) @ replicate u (Some x)"
      "map ev_time (trace s') = map ev_time (trace s) @ map (\<lambda>k. time s + int k) [0..<u]"
      "i < length (procs s')" "pid (procs s' ! i) = x"
      "remaining (procs s' ! i) = ?r - int u"
      unfolding s' using e i2 r2 by simp_all
    ultimately show ?thesis
      using False by simp
  qed
qed

text \<open>
  C6: under Round Robin with quantum \<open>Q\<close> (over processes with unique identifiers), at every
  selection point the iteration takes the identifier \<open>x\<close> at the head of the ready queue and
  finds its process; when that process has positive remaining work \<open>r\<close>, it executes exactly
  \<open>min(Q, r)\<close> consecutive units (none when \<open>Q \<le> 0\<close>): the clock advances by that number
  and the trace grows by that many entries, at consecutive times, all naming \<open>x\<close>; its
  remaining work drops by that number. If none is left (\<open>r \<le> Q\<close>) the process completes at
  the new time and is not put back. Otherwise \<open>x\<close> is put back at the tail of the ready
  queue: the queue is what waited behind \<open>x\<close>, then the identifiers admitted during the slice,
  then \<open>x\<close>; and every other process whose arrival time has been reached at the preemption
  instant and that has work left is in front of \<open>x\<close>.
\<close>

theorem C6_round_robin_turn:
  assumes "distinct (map in_pid ps)"
    and "loop_head q_pending (rr_body Q) (q_init (map normalize ps)) n s"
    and "readyQueue (enqueueArrivals s) = x # rest"
  shows "\<exists>i s'.
     findIndex (\<lambda>q. pid q = x) (procs (enqueueArrivals s)) = Some i \<and>
     rr_body Q s = Continue s' \<and>
     (0 < remaining (procs (enqueueArrivals s) ! i) \<longrightarrow>
      (let r = remaining (procs (enqueueArrivals s) ! i); u = nat (min Q r)
       in time s' = time s + int u \<and>
          map ev_cpu (trace s') = map ev_cpu (trace s) @ replicate u (Some x) \<and>
          map ev_time (trace s') = map ev_time (trace s) @ map (\<lambda>k. time s + int k) [0..<u] \<and>
          i < length (procs s') \<and> pid (procs s' ! i) = x \<and>
          remaining (procs s' ! i) = r - int u \<and>
          (if r \<le> Q
           then completionTime (procs s' ! i) = Some (time s') \<and>
                (\<exists>new. readyQueue s' = rest @ new)
           else (\<exists>new. readyQueue s' = rest @ new @ [x] \<and>
                   (\<forall>p \<in> set (procs s').
                      pid p \<noteq> x \<and> arrival p \<le> time s' \<and> 0 < remaining p \<longrightarrow>
                      pid p \<in> set (rest @ new))))))"
proof -
  have "map pid (map normalize ps) = map in_pid ps"
    by (simp add: normalize_def)
  with assms(1) have "distinct (map pid (map normalize ps))" by (simp only:)
  from rr_loop_head_inv [OF this assms(2)] have "q_queued {} s" "q_wf s" by simp_all
  define s1 where "s1 = enqueueArrivals s"
  have inv: "q_queued {} s1" "q_wf s1"
    unfolding s1_def
    by (rule preserved_enq [OF preserved_q_queued] preserved_enq [OF preserved_q_wf]; fact)+
  have c1: "caught_up s1" unfolding s1_def by (rule caught_up_enqueueArrivals)
  have q: "readyQueue s1 = x # rest" unfolding s1_def by (rule assms(3))
  have ts: "time s1 = time s" "trace s1 = trace s" unfolding s1_def by simp_all
  from q inv(2) have "x \<in> set (map pid (procs s1))"
    by (simp add: q_wf_def)
  from findIndex_mem [OF this] obtain i
    where i: "findIndex (\<lambda>q. pid q = x) (procs s1) = Some i" by blast
  define s2 where "s2 = s1\<lparr>readyQueue := rest\<rparr>"
  define s' where "s' = rr_turn Q x i s2"
  have body: "rr_body Q s = Continue s'"
  proof (cases rule: rr_body_cases [where s = s and qu = Q])
    case (idle t)
    with q s1_def show ?thesis by simp
  next
    case (throw t y rest')
    with q i s1_def show ?thesis by simp
  next
    case (turn t y rest' j)
    from turn(1) have t: "t = s1" by (simp add: s1_def)
    from turn(2,3,4) q i show ?thesis unfolding t s'_def s2_def by simp
  qed
  have i2: "i < length (procs s2)" "pid (procs s2 ! i) = x"
    using findIndex_Some [OF i] by (simp_all add: s2_def)
  have inv2: "q_queued {x} s2" "caught_up s2"
    unfolding s2_def using q_queued_pop [OF inv(1) q] c1 by simp_all
  have sel2: "procs s2 = procs s1" "time s2 = time s" "trace s2 = trace s" "readyQueue s2 = rest"
    by (simp_all add: s2_def ts)
  have "let r = remaining (procs s1 ! i); u = nat (min Q r)
       in time s' = time s + int u \<and>
          map ev_cpu (trace s') = map ev_cpu (trace s) @ replicate u (Some x) \<and>
          map ev_time (trace s') = map ev_time (trace s) @ map (\<lambda>k. time s + int k) [0..<u] \<and>
          i < length (procs s') \<and> pid (procs s' ! i) = x \<and>
          remaining (procs s' ! i) = r - int u \<and>
          (if r \<le> Q
           then completionTime (procs s' ! i) = Some (time s') \<and>
                (\<exists>new. readyQueue s' = rest @ new)
           else (\<exists>new. readyQueue s' = rest @ new @ [x] \<and>
                   (\<forall>p \<in> set (procs s').
                      pid p \<noteq> x \<and> arrival p \<le> time s' \<and> 0 < remaining p \<longrightarrow>
                      pid p \<in> set (rest @ new))))"
    if "0 < remaining (procs s1 ! i)"
  proof -
    from that have "0 < remaining (procs s2 ! i)" by (simp add: sel2)
    from rr_turn_exact [OF i2 this inv2, of Q] show ?thesis
      unfolding s'_def [symmetric] sel2 Let_def .
  qed
  with i body show ?thesis
    unfolding s1_def by blast
qed

lemma rr_jobs_init:
  "q_init (map normalize rr_jobs) =
     \<lparr>procs =
        [\<lparr>pid = ''P1'', arrival = 0, burst = 3, priority = 0, remaining = 3,
          startTime = None, completionTime = None, enqueued = True\<rparr>,
         \<lparr>pid = ''P2'', arrival = 2, burst = 1, priority = 0, remaining = 1,
          startTime = None, completionTime = None, enqueued = False\<rparr>],
      time = 0, history = [], trace = [], readyQueue = [''P1'']\<rparr>"
  by (simp add: sim_eval rr_eval rr_jobs_def)

lemma rr_jobs_first_turn:
  "case rr_body 2 (q_init (map normalize rr_jobs)) of
     Continue s' \<Rightarrow> readyQueue s' = [''P2'', ''P1''] \<and> map remaining (procs s') = [1, 1]
   | _ \<Rightarrow> False"
  unfolding rr_jobs_init by (simp add: sim_eval rr_eval)

theorem C6_round_robin_turn_witness:
  "distinct (map in_pid rr_jobs) \<and>
   loop_head q_pending (rr_body 2) (q_init (map normalize rr_jobs)) 0
     (q_init (map normalize rr_jobs)) \<and>
   readyQueue (enqueueArrivals (q_init (map normalize rr_jobs))) = ''P1'' # [] \<and>
   (\<exists>s'. rr_body 2 (q_init (map normalize rr_jobs)) = Continue s' \<and>
      time s' = 2 \<and> map ev_cpu (trace s') = [Some ''P1'', Some ''P1''] \<and>
      map ev_time (trace s') = [0, 1] \<and> map remaining (procs s') = [1, 1] \<and>
      readyQueue s' = [''P2'', ''P1''])"
proof -
  let ?s = "q_init (map normalize rr_jobs)"
  have h1: "distinct (map in_pid rr_jobs)" by (simp add: rr_jobs_def)
  have h2: "loop_head q_pending (rr_body 2) ?s 0 ?s" by (rule loop_start)
  have h3: "readyQueue (enqueueArrivals ?s) = ''P1'' # []"
    by (simp add: rr_jobs_init due_def)
  have p: "procs (enqueueArrivals ?s) = procs ?s" "time ?s = 0" "trace ?s = []"
    by (simp_all add: rr_jobs_init admit_def due_def)
  from C6_round_robin_turn [OF h1 h2 h3] obtain i s'
    where i: "findIndex (\<lambda>q. pid q = ''P1'') (procs (enqueueArrivals ?s)) = Some i"
      and b: "rr_body 2 ?s = Continue s'"
      and c: "0 < remaining (procs (enqueueArrivals ?s) ! i) \<longrightarrow>
      (let r = remaining (procs (enqueueArrivals ?s) ! i); u = nat (min 2 r)
       in time s' = time ?s + int u \<and>
          map ev_cpu (trace s') = map ev_cpu (trace ?s) @ replicate u (Some ''P1'') \<and>
          map ev_time (trace s') =
            map ev_time (trace ?s) @ map (\<lambda>k. time ?s + int k) [0..<u] \<and>
          i < length (procs s') \<and> pid (procs s' ! i) = ''P1'' \<and>
          remaining (procs s' ! i) = r - int u \<and>
          (if r \<le> 2
           then completionTime (procs s' ! i) = Some (time s') \<and>
                (\<exists>new. readyQueue s' = [] @ new)
           else (\<exists>new. readyQueue s' = [] @ new @ [''P1''] \<and>
                   (\<forall>p \<in> set (procs s').
                      pid p \<noteq> ''P1'' \<and> arrival p \<le> time s' \<and> 0 < remaining p \<longrightarrow>
                      pid p \<in> set ([] @ new)))))"
    by blast
  from i have i0: "i = 0" unfolding p by (simp add: rr_jobs_init)
  have r: "remaining (procs ?s ! i) = 3"
    unfolding i0 by (simp add: rr_jobs_init)
  have u: "nat (min 2 (3::int)) = Suc (Suc 0)" by simp
  have pos: "0 < remaining (procs (enqueueArrivals ?s) ! i)"
    unfolding p r by simp
  note c2 = c [THEN mp, OF pos, unfolded Let_def p(1) r u]
  have "time s' = time ?s + int (Suc (Suc 0))"
    by (rule c2 [THEN conjunct1])
  moreover have "map ev_cpu (trace s') =
      map ev_cpu (trace ?s) @ replicate (Suc (Suc 0)) (Some ''P1'')"
    by (rule c2 [THEN conjunct2, THEN conjunct1])
  moreover have "map ev_time (trace s') =
      map ev_time (trace ?s) @ map (\<lambda>k. time ?s + int k) [0..<Suc (Suc 0)]"
    by (rule c2 [THEN conjunct2, THEN conjunct2, THEN conjunct1])
  ultimately have t: "time s' = 2" "map ev_cpu (trace s') = [Some ''P1'', Some ''P1'']"
    "map ev_time (trace s') = [0, 1]"
    unfolding p(2,3) by simp_all
  from rr_jobs_first_turn b have e: "readyQueue s' = [''P2'', ''P1'']"
    "map remaining (procs s') = [1, 1]"
    by simp_all
  from b t e have "\<exists>s'. rr_body 2 ?s = Continue s' \<and>
      time s' = 2 \<and> map ev_cpu (trace s') = [Some ''P1'', Some ''P1''] \<and>
      map ev_time (trace s') = [0, 1] \<and> map remaining (procs s') = [1, 1] \<and>
      readyQueue s' = [''P2'', ''P1'']"
    by (intro exI [of _ s'] conjI)
  with h1 h2 h3 show ?thesis by (intro conjI)
qed

end
